theory Spec2Isabelle
  imports Complex_Main "HOL-Library.Word"
begin

section \<open>Types of sst_types.h\<close>

text \<open>
  \<^verbatim>\<open>typedef uint64_t Cycle_t; typedef uint64_t SimTime_t;\<close> Both are unsigned 64-bit
  integers: addition, subtraction and multiplication wrap modulo \<open>2 ^ 64\<close>, division and
  remainder are the unsigned ones.
\<close>

type_synonym Cycle_t = "64 word"
type_synonym SimTime_t = "64 word"

definition MAX_SIMTIME_T :: SimTime_t where
  "MAX_SIMTIME_T = 0xFFFFFFFFFFFFFFFF"

text \<open>Pointers are handles: a \<^verbatim>\<open>Link*\<close>, a \<^verbatim>\<open>Clock*\<close> and a
  \<^verbatim>\<open>Clock::HandlerBase*\<close> are natural numbers, compared by identity as the code does.\<close>

type_synonym LinkPtr = nat
type_synonym ClockPtr = nat
type_synonym HandlerPtr = nat

section \<open>The simulation object, as far as clock.cc and threadSyncSimpleSkip.cc use it\<close>

text \<open>
  An \<^verbatim>\<open>Event\<close> buffered in a \<^verbatim>\<open>ThreadSyncQueue\<close>: its delivery time
  (\<^verbatim>\<open>getDeliveryTime()\<close>) and the Link that \<^verbatim>\<open>getDeliveryLink(ev)\<close> resolves it to.
  \<open>payload\<close> stands for the rest of the object.
\<close>

record Event =
  deliveryTime :: SimTime_t
  delivery_info :: LinkPtr
  payload :: nat

datatype ActivityRef = ClockRef ClockPtr | EventRef LinkPtr Event

text \<open>
  \<^verbatim>\<open>Simulation_impl\<close> is not part of the sources at hand; the two files read
  \<^verbatim>\<open>getCurrentSimCycle()\<close>, \<^verbatim>\<open>getCurrentPriority()\<close>, \<^verbatim>\<open>getInterThreadMinLatency()\<close>,
  \<^verbatim>\<open>getRank().thread\<close>, \<^verbatim>\<open>getNumRanks().rank\<close> and
  \<^verbatim>\<open>getLocalMinimumNextActivityTime()\<close>, and change it through \<^verbatim>\<open>insertActivity\<close> and
  \<^verbatim>\<open>Link::send\<close>. The record holds what these read and write: \<open>timeVortex\<close> is the
  Activity Queue (the pending Activities with their delivery times, in insertion order) and
  \<open>sent\<close> logs every \<^verbatim>\<open>Link::send(delay, ev)\<close> call as (link, delay, event).
\<close>

record Simulation_impl =
  currentSimCycle :: SimTime_t
  currentPriority :: int
  interThreadMinLatency :: SimTime_t
  rank_thread :: nat
  numRanks_rank :: nat
  timeVortex :: "(SimTime_t \<times> ActivityRef) list"
  sent :: "(LinkPtr \<times> SimTime_t \<times> Event) list"

text \<open>Modelled from the spec: \<^verbatim>\<open>Simulation_impl::insertActivity(time, activity)\<close>, which is
  not among the sources; the Activity is put into the Activity Queue for delivery at that time.\<close>

definition insertActivity :: "SimTime_t \<Rightarrow> ActivityRef \<Rightarrow> Simulation_impl \<Rightarrow> Simulation_impl" where
  "insertActivity time act sim = sim\<lparr>timeVortex := timeVortex sim @ [(time, act)]\<rparr>"

text \<open>Modelled from the spec: \<^verbatim>\<open>Link::send(delay, event)\<close> on a resolved Link, which is not
  among the sources; the event goes directly into the destination's own Activity Queue, for
  delivery \<open>delay\<close> after the current simulated time. The call itself is logged in \<open>sent\<close>.\<close>

definition Link_send :: "LinkPtr \<Rightarrow> SimTime_t \<Rightarrow> Event \<Rightarrow> Simulation_impl \<Rightarrow> Simulation_impl" where
  "Link_send lnk delay ev sim =
     insertActivity (currentSimCycle sim + delay)
       (EventRef lnk (ev\<lparr>deliveryTime := currentSimCycle sim + delay\<rparr>))
       (sim\<lparr>sent := sent sim @ [(lnk, delay, ev)]\<rparr>)"

text \<open>Modelled from the spec: \<^verbatim>\<open>Simulation_impl::getLocalMinimumNextActivityTime()\<close>, which
  is not among the sources; the smallest delivery time pending in the Activity Queue, and
  \<^verbatim>\<open>MAX_SIMTIME_T\<close> when nothing is pending.\<close>

definition getLocalMinimumNextActivityTime :: "Simulation_impl \<Rightarrow> SimTime_t" where
  "getLocalMinimumNextActivityTime sim =
     fold (\<lambda>e ret. if fst e < ret then fst e else ret) (timeVortex sim) MAX_SIMTIME_T"

section \<open>threadSyncSimpleSkip.cc\<close>

text \<open>
  The barriers are a static array of three \<^verbatim>\<open>Core::ThreadSafe::Barrier\<close>, shared by all
  instances; of a Barrier only the participant count set by \<^verbatim>\<open>resize\<close> is kept.
\<close>

record Barrier =
  count :: int

text \<open>
  The object. \<open>queues\<close> is the vector of \<^verbatim>\<open>ThreadSyncQueue*\<close>, each one the vector of the
  events buffered in it; \<open>link_map\<close> maps a link name to the Link registered under it.
  \<open>totalWaitTime\<close> is a \<^verbatim>\<open>double\<close> of wall-clock seconds, kept as a real number.
\<close>

record ThreadSyncSimpleSkip =
  num_threads :: int
  thread :: int
  totalWaitTime :: real
  queues :: "Event list list"
  link_map :: "string \<rightharpoonup> LinkPtr"
  single_rank :: bool
  my_max_period :: SimTime_t
  nextSyncTime :: SimTime_t

text \<open>The constructor: one empty queue per thread, the barriers resized by thread 0 only.\<close>

definition ThreadSyncSimpleSkip_new ::
  "int \<Rightarrow> int \<Rightarrow> Simulation_impl \<Rightarrow> Barrier list \<Rightarrow> ThreadSyncSimpleSkip \<times> Barrier list" where
  "ThreadSyncSimpleSkip_new n t sim barrier =
     (\<lparr>num_threads = n,
       thread = t,
       totalWaitTime = 0,
       queues = replicate (nat n) [],
       link_map = Map.empty,
       single_rank = (\<not> numRanks_rank sim > 1),
       my_max_period = interThreadMinLatency sim,
       nextSyncTime = interThreadMinLatency sim\<rparr>,
      if rank_thread sim = 0 then map (\<lambda>b. b\<lparr>count := n\<rparr>) barrier else barrier)"

text \<open>\<^verbatim>\<open>after()\<close>: one read of the local minimum, one wrapping addition, the larger of
  the two.\<close>

definition after :: "ThreadSyncSimpleSkip \<Rightarrow> Simulation_impl \<Rightarrow> ThreadSyncSimpleSkip" where
  "after s sim =
     (let nextmin = getLocalMinimumNextActivityTime sim;
          nextminPlus = nextmin + my_max_period s
      in s\<lparr>nextSyncTime := (if nextmin > nextminPlus then nextmin else nextminPlus)\<rparr>)"

text \<open>\<^verbatim>\<open>getDataSize()\<close>: \<^verbatim>\<open>size_t count = 0; return count;\<close>\<close>

definition getDataSize :: "ThreadSyncSimpleSkip \<Rightarrow> 64 word" where
  "getDataSize s = (let count = 0 in count)"

text \<open>Modelled from the spec: \<^verbatim>\<open>ThreadSync::getDeliveryLink(ev)\<close>, declared in the base
  class, which is not among the sources; the resolved Link the event is to be delivered on.\<close>

definition getDeliveryLink :: "Event \<Rightarrow> LinkPtr" where
  "getDeliveryLink ev = delivery_info ev"

text \<open>
  \<^verbatim>\<open>before()\<close>. The inner loop walks one queue's vector and sends every event with
  \<^verbatim>\<open>delay = ev->getDeliveryTime() - current_cycle\<close> (an unsigned subtraction); the outer loop
  does so for every queue and clears it (\<^verbatim>\<open>queue->clear()\<close> leaves the vector empty).
\<close>

fun send_events :: "SimTime_t \<Rightarrow> Event list \<Rightarrow> Simulation_impl \<Rightarrow> Simulation_impl" where
  "send_events current_cycle [] sim = sim"
| "send_events current_cycle (ev # vec) sim =
     (let delay = deliveryTime ev - current_cycle
      in send_events current_cycle vec (Link_send (getDeliveryLink ev) delay ev sim))"

fun drain_queues ::
  "SimTime_t \<Rightarrow> Event list list \<Rightarrow> Simulation_impl \<Rightarrow> Event list list \<times> Simulation_impl" where
  "drain_queues current_cycle [] sim = ([], sim)"
| "drain_queues current_cycle (vec # rest) sim =
     (let sim1 = send_events current_cycle vec sim;
          (rest', sim2) = drain_queues current_cycle rest sim1
      in ([] # rest', sim2))"

definition before ::
  "ThreadSyncSimpleSkip \<Rightarrow> Simulation_impl \<Rightarrow> ThreadSyncSimpleSkip \<times> Simulation_impl" where
  "before s sim =
     (let current_cycle = currentSimCycle sim;
          (qs, sim') = drain_queues current_cycle (queues s) sim
      in (s\<lparr>queues := qs\<rparr>, sim'))"

text \<open>
  \<^verbatim>\<open>execute()\<close>, seen from the one thread that runs it: what this thread does, in the
  order it does it, is appended to a trace. A wait at \<^verbatim>\<open>barrier[i]\<close> is recorded with the
  number of events buffered in the object's queues and the value of \<open>nextSyncTime\<close> at the
  moment of the call. Of \<^verbatim>\<open>Barrier::wait()\<close> only the value it returns enters the object,
  the wall-clock time the caller spent blocked; it is a parameter: \<open>w i\<close> is what the wait at
  \<^verbatim>\<open>barrier[i]\<close> returns.
\<close>

datatype epoch_step = BarrierWait nat nat SimTime_t | BeforePhase | AfterPhase

definition wait_step :: "nat \<Rightarrow> ThreadSyncSimpleSkip \<Rightarrow> epoch_step" where
  "wait_step i s = BarrierWait i (length (concat (queues s))) (nextSyncTime s)"

definition ThreadSyncSimpleSkip_execute ::
  "(nat \<Rightarrow> real) \<Rightarrow> ThreadSyncSimpleSkip \<times> Simulation_impl \<times> epoch_step list
     \<Rightarrow> ThreadSyncSimpleSkip \<times> Simulation_impl \<times> epoch_step list" where
  "ThreadSyncSimpleSkip_execute w st =
     (case st of (s, sim, tr) \<Rightarrow>
       (let tr1 = tr @ [wait_step 0 s];
            s1 = s\<lparr>totalWaitTime := w 0\<rparr>;
            tr2 = tr1 @ [BeforePhase];
            (s2, sim2) = before s1 sim;
            tr3 = tr2 @ [wait_step 1 s2];
            s3 = s2\<lparr>totalWaitTime := w 1\<rparr>;
            tr4 = tr3 @ [AfterPhase];
            s4 = after s3 sim2;
            tr5 = tr4 @ [wait_step 2 s4];
            s5 = s4\<lparr>totalWaitTime := totalWaitTime s4 + w 2\<rparr>
        in (s5, sim2, tr5)))"

text \<open>
  Link registration. The Links live outside the object; of a Link only its delivery
  metadata is kept: \<open>links l = Some r\<close> when the delivery info of Link \<open>l\<close> is Link \<open>r\<close>.
\<close>

type_synonym LinkStore = "LinkPtr \<rightharpoonup> LinkPtr"

text \<open>Modelled from the spec: \<^verbatim>\<open>ThreadSync::setLinkDeliveryInfo(link, info)\<close>, declared in the
  base class, which is not among the sources. The registration functions make this one call
  when the second side arrives, and the spec gives its effect as "wires both directions'
  delivery metadata": each of the two Links gets the other as its delivery info.\<close>

definition setLinkDeliveryInfo :: "LinkPtr \<Rightarrow> LinkPtr \<Rightarrow> LinkStore \<Rightarrow> LinkStore" where
  "setLinkDeliveryInfo link info links = links(link \<mapsto> info, info \<mapsto> link)"

definition registerLink ::
  "string \<Rightarrow> LinkPtr \<Rightarrow> ThreadSyncSimpleSkip \<times> LinkStore \<Rightarrow> ThreadSyncSimpleSkip \<times> LinkStore" where
  "registerLink name link st =
     (case st of (s, links) \<Rightarrow>
       (case link_map s name of
          None \<Rightarrow> (s\<lparr>link_map := (link_map s)(name \<mapsto> link)\<rparr>, links)
        | Some remote_link \<Rightarrow>
            (s\<lparr>link_map := (link_map s)(name := None)\<rparr>,
             setLinkDeliveryInfo link remote_link links)))"

text \<open>\<^verbatim>\<open>registerRemoteLink\<close> returns \<^verbatim>\<open>queues[tid]\<close>: the index of that queue, and
  \<open>None\<close> where the index is outside the vector (the read is undefined in C++).\<close>

definition registerRemoteLink ::
  "int \<Rightarrow> string \<Rightarrow> LinkPtr \<Rightarrow> ThreadSyncSimpleSkip \<times> LinkStore
     \<Rightarrow> nat option \<times> ThreadSyncSimpleSkip \<times> LinkStore" where
  "registerRemoteLink tid name link st =
     (case st of (s, links) \<Rightarrow>
       (let st' =
          (case link_map s name of
             None \<Rightarrow> (s\<lparr>link_map := (link_map s)(name \<mapsto> link)\<rparr>, links)
           | Some local_link \<Rightarrow>
               (s\<lparr>link_map := (link_map s)(name := None)\<rparr>,
                setLinkDeliveryInfo local_link link links))
        in (if 0 \<le> tid \<and> nat tid < length (queues s) then Some (nat tid) else None, st')))"

section \<open>clock.cc\<close>

text \<open>
  The Clock. \<open>period\<close> is \<^verbatim>\<open>period->getFactor()\<close>, the number of core time units in one
  cycle; \<open>staticHandlerMap\<close> is the vector of handler pointers, in registration order;
  \<open>nextTime\<close> is the member \<^verbatim>\<open>next\<close> that \<^verbatim>\<open>execute()\<close> assigns.
\<close>

record Clock =
  currentCycle :: Cycle_t
  period :: SimTime_t
  priority :: int
  scheduled :: bool
  staticHandlerMap :: "HandlerPtr list"
  nextTime :: SimTime_t

datatype error = DivisionByZero

definition Clock_new :: "SimTime_t \<Rightarrow> int \<Rightarrow> Clock" where
  "Clock_new p prio =
     \<lparr>currentCycle = 0, period = p, priority = prio, scheduled = False,
      staticHandlerMap = [], nextTime = 0\<rparr>"

text \<open>
  \<^verbatim>\<open>schedule()\<close>. \<^verbatim>\<open>getCurrentSimCycle() / period->getFactor()\<close> is an unsigned division;
  with a factor of zero it is undefined in C++ and is an error here.
\<close>

definition Clock_schedule ::
  "ClockPtr \<Rightarrow> Clock \<times> Simulation_impl \<Rightarrow> error + (Clock \<times> Simulation_impl)" where
  "Clock_schedule this st =
     (case st of (c, sim) \<Rightarrow>
       if period c = 0 then Inl DivisionByZero
       else
         (let cc = currentSimCycle sim div period c;
              next0 = (cc * period c) + period c;
              next1 =
                (if currentPriority sim < priority c \<and> currentSimCycle sim \<noteq> 0
                 then (if currentSimCycle sim mod period c = 0 then currentSimCycle sim else next0)
                 else next0)
          in Inr (c\<lparr>currentCycle := cc, scheduled := True\<rparr>,
                  insertActivity next1 (ClockRef this) sim)))"

definition Clock_registerHandler ::
  "ClockPtr \<Rightarrow> HandlerPtr \<Rightarrow> Clock \<times> Simulation_impl \<Rightarrow> error + (bool \<times> Clock \<times> Simulation_impl)" where
  "Clock_registerHandler this handler st =
     (case st of (c, sim) \<Rightarrow>
       (let c1 = c\<lparr>staticHandlerMap := staticHandlerMap c @ [handler]\<rparr>
        in if \<not> scheduled c1
           then (case Clock_schedule this (c1, sim) of
                   Inl e \<Rightarrow> Inl e
                 | Inr st' \<Rightarrow> Inr (False, st'))
           else Inr (False, c1, sim)))"

text \<open>\<^verbatim>\<open>unregisterHandler\<close>: the loop erases at the first position holding the pointer and
  stops. The result is the return value, the Clock and the output parameter \<^verbatim>\<open>empty\<close>.\<close>

fun erase_first :: "HandlerPtr \<Rightarrow> HandlerPtr list \<Rightarrow> HandlerPtr list" where
  "erase_first handler [] = []"
| "erase_first handler (x # xs) = (if x = handler then xs else x # erase_first handler xs)"

definition Clock_unregisterHandler :: "HandlerPtr \<Rightarrow> Clock \<Rightarrow> bool \<times> Clock \<times> bool" where
  "Clock_unregisterHandler handler c =
     (let hs = erase_first handler (staticHandlerMap c)
      in (False, c\<lparr>staticHandlerMap := hs\<rparr>, hs = []))"

definition Clock_getNextCycle :: "Clock \<Rightarrow> Cycle_t" where
  "Clock_getNextCycle c = currentCycle c + 1"

text \<open>
  Handlers are code of the components. An invocation \<^verbatim>\<open>(*handler)(currentCycle)\<close> is logged
  with the handler, the cycle number passed, the simulated time and the value returned
  (\<open>True\<close> is "remove me"). What a handler returns is given by a function of everything
  invoked so far, the handler and the cycle number, so that a handler may count its own
  calls. A handler that calls back into the same Clock while it runs is outside the model.
\<close>

record Invocation =
  inv_handler :: HandlerPtr
  inv_cycle :: Cycle_t
  inv_time :: SimTime_t
  inv_done :: bool

type_synonym handler_code = "Invocation list \<Rightarrow> HandlerPtr \<Rightarrow> Cycle_t \<Rightarrow> bool"

text \<open>
  The loop of \<^verbatim>\<open>execute()\<close>: \<open>vec\<close> is the vector and \<open>pos\<close> the position of the
  iterator \<^verbatim>\<open>sop_iter\<close>. The handler at the iterator is invoked; when it returns true the
  element is erased and the iterator stays at that position (\<^verbatim>\<open>erase\<close> returns the iterator
  to the following element), else the iterator steps on. The loop ends when the iterator
  reaches the end of the vector.
\<close>

function invoke_handlers ::
  "handler_code \<Rightarrow> SimTime_t \<Rightarrow> Cycle_t \<Rightarrow> HandlerPtr list \<Rightarrow> nat \<Rightarrow> Invocation list
     \<Rightarrow> HandlerPtr list \<times> Invocation list" where
  "invoke_handlers code now cyc vec pos hist =
     (if pos < length vec then
        (let handler = vec ! pos;
             done = code hist handler cyc;
             hist1 = hist @ [\<lparr>inv_handler = handler, inv_cycle = cyc, inv_time = now, inv_done = done\<rparr>]
         in if done
            then invoke_handlers code now cyc (take pos vec @ drop (Suc pos) vec) pos hist1
            else invoke_handlers code now cyc vec (Suc pos) hist1)
      else (vec, hist))"
  by pat_completeness auto
termination
  by (relation "measure (\<lambda>(code, now, cyc, vec, pos, hist). length vec - pos)") auto

declare invoke_handlers.simps [simp del]

definition Clock_execute ::
  "ClockPtr \<Rightarrow> handler_code \<Rightarrow> Clock \<times> Simulation_impl \<times> Invocation list
     \<Rightarrow> Clock \<times> Simulation_impl \<times> Invocation list" where
  "Clock_execute this code st =
     (case st of (c, sim, hist) \<Rightarrow>
       if staticHandlerMap c = [] then (c\<lparr>scheduled := False\<rparr>, sim, hist)
       else
         (let c1 = c\<lparr>currentCycle := currentCycle c + 1\<rparr>;
              (hs, hist') = invoke_handlers code (currentSimCycle sim) (currentCycle c1)
                             (staticHandlerMap c1) 0 hist;
              c2 = c1\<lparr>staticHandlerMap := hs\<rparr>;
              c3 = c2\<lparr>nextTime := currentSimCycle sim + period c2\<rparr>
          in (c3, insertActivity (nextTime c3) (ClockRef this) sim, hist')))"

text \<open>
  Modelled from the spec: the run loop of the partition, which is not among the sources.
  It takes the Clock's pending entry out of the Activity Queue, advances the simulated time
  to its delivery time, makes the Clock's priority the current one and calls
  \<^verbatim>\<open>execute()\<close>. \<open>None\<close> when the Clock is not in the Activity Queue. \<open>run_clock n\<close> is
  \<open>n\<close> such firings.
\<close>

definition fire_clock ::
  "ClockPtr \<Rightarrow> handler_code \<Rightarrow> Clock \<times> Simulation_impl \<times> Invocation list
     \<Rightarrow> (Clock \<times> Simulation_impl \<times> Invocation list) option" where
  "fire_clock this code st =
     (case st of (c, sim, hist) \<Rightarrow>
       (case find (\<lambda>e. snd e = ClockRef this) (timeVortex sim) of
          None \<Rightarrow> None
        | Some e \<Rightarrow>
            Some (Clock_execute this code
                    (c, sim\<lparr>currentSimCycle := fst e, currentPriority := priority c,
                             timeVortex := remove1 e (timeVortex sim)\<rparr>, hist))))"

fun run_clock ::
  "ClockPtr \<Rightarrow> handler_code \<Rightarrow> nat \<Rightarrow> Clock \<times> Simulation_impl \<times> Invocation list
     \<Rightarrow> (Clock \<times> Simulation_impl \<times> Invocation list) option" where
  "run_clock this code 0 st = Some st"
| "run_clock this code (Suc n) st =
     (case fire_clock this code st of None \<Rightarrow> None | Some st' \<Rightarrow> run_clock this code n st')"

text \<open>
  The invocations one pass of the loop makes for the part \<open>hs\<close> of the vector not yet
  visited, by recursion on that part: one invocation per stored pointer, in order, each
  answer computed from the history up to it. The loop is proved below to append exactly
  these and to keep exactly the handlers whose invocation did not ask for removal.
\<close>

fun pass_invocations ::
  "handler_code \<Rightarrow> SimTime_t \<Rightarrow> Cycle_t \<Rightarrow> HandlerPtr list \<Rightarrow> Invocation list \<Rightarrow> Invocation list" where
  "pass_invocations code now cyc [] hist = []"
| "pass_invocations code now cyc (handler # rest) hist =
     \<lparr>inv_handler = handler, inv_cycle = cyc, inv_time = now, inv_done = code hist handler cyc\<rparr>
       # pass_invocations code now cyc rest
           (hist @ [\<lparr>inv_handler = handler, inv_cycle = cyc, inv_time = now,
                     inv_done = code hist handler cyc\<rparr>])"

text \<open>Registering several handlers, one \<^verbatim>\<open>registerHandler\<close> call each, in order.\<close>

fun register_all ::
  "ClockPtr \<Rightarrow> HandlerPtr list \<Rightarrow> Clock \<times> Simulation_impl \<Rightarrow> error + (Clock \<times> Simulation_impl)" where
  "register_all this [] st = Inr st"
| "register_all this (handler # rest) st =
     (case Clock_registerHandler this handler st of
        Inl e \<Rightarrow> Inl e
      | Inr r \<Rightarrow> register_all this rest (snd r))"

text \<open>The Clock is in the Activity Queue.\<close>

definition clock_in_queue :: "ClockPtr \<Rightarrow> Simulation_impl \<Rightarrow> bool" where
  "clock_in_queue this sim = list_ex (\<lambda>e. snd e = ClockRef this) (timeVortex sim)"

section \<open>What the specification says, for comparison\<close>

text \<open>
  The definitions of this section follow the words of the specification, not the code; the
  theorems compare them with the code.
\<close>

text \<open>The specification's formula for the next synchronization time:
  \<open>max(localMinimumNextActivityTime, localMinimumNextActivityTime_at_epoch_start + maxPeriod)\<close>.\<close>

definition spec_nextSyncTime :: "SimTime_t \<Rightarrow> SimTime_t \<Rightarrow> SimTime_t \<Rightarrow> SimTime_t" where
  "spec_nextSyncTime lm lm_at_epoch_start maxPeriod = max lm (lm_at_epoch_start + maxPeriod)"

text \<open>"Phase \<open>phase\<close> is entered only after passing Barrier \<open>i\<close>": walking the trace of an
  epoch, the wait at \<^verbatim>\<open>barrier[i]\<close> is met before the phase is.\<close>

fun is_wait :: "nat \<Rightarrow> epoch_step \<Rightarrow> bool" where
  "is_wait i (BarrierWait j buffered nst) = (i = j)"
| "is_wait i BeforePhase = False"
| "is_wait i AfterPhase = False"

fun entered_only_after :: "nat \<Rightarrow> epoch_step \<Rightarrow> epoch_step list \<Rightarrow> bool" where
  "entered_only_after i phase [] = True"
| "entered_only_after i phase (x # xs) =
     (if x = phase then False else if is_wait i x then True else entered_only_after i phase xs)"

text \<open>"Each of the two Links' remote delivery info ends up pointing at the other."\<close>

definition wired_both_ways :: "LinkPtr \<Rightarrow> LinkPtr \<Rightarrow> LinkStore \<Rightarrow> bool" where
  "wired_both_ways a b links = (links a = Some b \<and> links b = Some a)"

text \<open>"The total size of the Activities currently buffered in the partition's Cross-Partition
  Link Queues", for a given size of each Activity.\<close>

definition spec_outstanding_volume :: "(Event \<Rightarrow> nat) \<Rightarrow> ThreadSyncSimpleSkip \<Rightarrow> nat" where
  "spec_outstanding_volume size_of s = sum_list (map size_of (concat (queues s)))"

text \<open>
  The specification's rule for the first insertion of a Clock: "the next multiple of its
  period at or after the current simulated time, with time zero always deferring to the
  next whole cycle", and the tie-break under which "the Clock may instead be inserted for
  delivery at the current time": another Activity at the same simulated time has strictly
  greater priority value than the Clock's, the current time is a period boundary and is not
  absolute zero.
\<close>

definition spec_next_boundary :: "SimTime_t \<Rightarrow> SimTime_t \<Rightarrow> SimTime_t" where
  "spec_next_boundary now p =
     (if now \<noteq> 0 \<and> now mod p = 0 then now else (now div p) * p + p)"

definition spec_tie_break :: "int \<Rightarrow> int \<Rightarrow> SimTime_t \<Rightarrow> SimTime_t \<Rightarrow> bool" where
  "spec_tie_break other_priority clock_priority now p =
     (other_priority > clock_priority \<and> now mod p = 0 \<and> now \<noteq> 0)"

definition spec_insertion_allowed :: "int \<Rightarrow> int \<Rightarrow> SimTime_t \<Rightarrow> SimTime_t \<Rightarrow> SimTime_t \<Rightarrow> bool" where
  "spec_insertion_allowed other_priority clock_priority now p t =
     (t = spec_next_boundary now p \<or> (spec_tie_break other_priority clock_priority now p \<and> t = now))"

section \<open>Example states\<close>

text \<open>
  A partition at simulated time 10 whose Activity Queue holds one Activity for time 100, and
  its synchronization object (two threads, latency bound 10) with one event for time 15
  buffered for it by the other thread.
\<close>

definition sim_ex :: Simulation_impl where
  "sim_ex = \<lparr>currentSimCycle = 10, currentPriority = 0, interThreadMinLatency = 10,
     rank_thread = 0, numRanks_rank = 1, timeVortex = [(100, ClockRef 0)], sent = []\<rparr>"

definition sync_ex :: ThreadSyncSimpleSkip where
  "sync_ex = (fst (ThreadSyncSimpleSkip_new 2 0 sim_ex []))
      \<lparr>queues := [[], [\<lparr>deliveryTime = 15, delivery_info = 7, payload = 0\<rparr>]]\<rparr>"

text \<open>
  A simulation at time zero with an empty Activity Queue, and the same simulation at
  time 20 while an Activity of priority 50 (respectively 30) is being executed. The Clocks of
  the examples have period 10 and priority 40.
\<close>

definition sim_zero :: Simulation_impl where
  "sim_zero = \<lparr>currentSimCycle = 0, currentPriority = 0, interThreadMinLatency = 10,
     rank_thread = 0, numRanks_rank = 1, timeVortex = [], sent = []\<rparr>"

definition sim_at_20 :: "int \<Rightarrow> Simulation_impl" where
  "sim_at_20 prio = sim_zero\<lparr>currentSimCycle := 20, currentPriority := prio\<rparr>"

text \<open>Handler code: one that asks for removal at every invocation, and one that never does.\<close>

definition remove_me :: handler_code where
  "remove_me hist handler cyc = True"

definition keep_me :: handler_code where
  "keep_me hist handler cyc = False"

text \<open>The Clock of period 10 and priority 40 once handler 5 has been registered at time zero,
  and the simulation at time 10 when that Clock has just been taken out of the queue.\<close>

definition clock_ex :: Clock where
  "clock_ex = (Clock_new 10 40)\<lparr>scheduled := True, staticHandlerMap := [5]\<rparr>"

definition sim_at_10 :: Simulation_impl where
  "sim_at_10 = sim_zero\<lparr>currentSimCycle := 10, currentPriority := 40\<rparr>"

section \<open>Construction\<close>

text \<open>
  C10. Immediately after a ThreadSyncSimpleSkip is constructed, \<open>nextSyncTime\<close> equals
  the configured inter-thread minimum latency (\<open>my_max_period\<close>), whatever the Activity
  Queue holds and whatever the thread count, thread index and barriers are.
\<close>

theorem C10_constructor_nextSyncTime:
  "nextSyncTime (fst (ThreadSyncSimpleSkip_new n t sim barrier)) = interThreadMinLatency sim
   \<and> my_max_period (fst (ThreadSyncSimpleSkip_new n t sim barrier)) = interThreadMinLatency sim
   \<and> nextSyncTime (fst (ThreadSyncSimpleSkip_new n t (sim\<lparr>timeVortex := tv\<rparr>) barrier))
       = nextSyncTime (fst (ThreadSyncSimpleSkip_new n t sim barrier))"
  by (simp add: ThreadSyncSimpleSkip_new_def)

section \<open>The Before phase\<close>

lemma sent_Link_send: "sent (Link_send l d e sim) = sent sim @ [(l, d, e)]"
  by (simp add: Link_send_def insertActivity_def)

lemma sent_send_events:
  "sent (send_events cc vec sim) =
     sent sim @ map (\<lambda>ev. (getDeliveryLink ev, deliveryTime ev - cc, ev)) vec"
  by (induction vec arbitrary: sim) (simp_all add: sent_Link_send Let_def)

lemma fst_drain_queues: "fst (drain_queues cc qs sim) = replicate (length qs) []"
  by (induction qs arbitrary: sim) (simp_all add: Let_def case_prod_beta)

lemma sent_drain_queues:
  "sent (snd (drain_queues cc qs sim)) =
     sent sim @ map (\<lambda>ev. (getDeliveryLink ev, deliveryTime ev - cc, ev)) (concat qs)"
  by (induction qs arbitrary: sim) (simp_all add: Let_def sent_send_events case_prod_beta)

lemma before_my_max_period: "my_max_period (fst (before s sim)) = my_max_period s"
  by (simp add: before_def Let_def case_prod_beta)

lemma before_totalWaitTime:
  "before (s\<lparr>totalWaitTime := x\<rparr>) sim = ((fst (before s sim))\<lparr>totalWaitTime := x\<rparr>, snd (before s sim))"
  by (simp add: before_def Let_def case_prod_beta)

lemma after_totalWaitTime:
  "after (s\<lparr>totalWaitTime := x\<rparr>) sim = (after s sim)\<lparr>totalWaitTime := x\<rparr>"
  by (simp add: after_def Let_def)

lemma totalWaitTime_after: "totalWaitTime (after s sim) = totalWaitTime s"
  by (simp add: after_def Let_def)

lemma before_queues:
  "queues (fst (before s sim)) = replicate (length (queues s)) []"
  using fst_drain_queues [of "currentSimCycle sim" "queues s" sim]
  by (simp add: before_def Let_def case_prod_beta)

lemma before_nextSyncTime: "nextSyncTime (fst (before s sim)) = nextSyncTime s"
  by (simp add: before_def Let_def case_prod_beta)

lemma after_queues: "queues (after s sim) = queues s"
  by (simp add: after_def Let_def)

lemma execute_unfold:
  "ThreadSyncSimpleSkip_execute w (s, sim, tr) =
     ((after (fst (before s sim)) (snd (before s sim)))\<lparr>totalWaitTime := w 1 + w 2\<rparr>,
      snd (before s sim),
      tr @ [BarrierWait 0 (length (concat (queues s))) (nextSyncTime s),
            BeforePhase,
            BarrierWait 1 0 (nextSyncTime s),
            AfterPhase,
            BarrierWait 2 0 (nextSyncTime (after (fst (before s sim)) (snd (before s sim))))])"
  by (simp add: ThreadSyncSimpleSkip_execute_def Let_def case_prod_beta wait_step_def
      before_totalWaitTime after_totalWaitTime before_queues before_nextSyncTime after_queues)

text \<open>
  C2. When \<open>before()\<close> returns, every queue of the object has length 0 (and there are as
  many queues as before), and the \<open>Link::send\<close> calls made are exactly one per buffered
  event, in queue order, each on the event's resolved Link with delay equal to the event's
  delivery time minus the simulated cycle read at entry (an unsigned 64-bit subtraction).
\<close>

theorem C2_before_drains_and_sends:
  "queues (fst (before s sim)) = replicate (length (queues s)) []
   \<and> list_all (\<lambda>q. length q = 0) (queues (fst (before s sim)))
   \<and> sent (snd (before s sim)) =
       sent sim @ map (\<lambda>ev. (getDeliveryLink ev, deliveryTime ev - currentSimCycle sim, ev))
                    (concat (queues s))"
  using fst_drain_queues [of "currentSimCycle sim" "queues s" sim]
    sent_drain_queues [of "currentSimCycle sim" "queues s" sim]
  by (simp add: before_def Let_def case_prod_beta list_all_iff)

section \<open>The After phase\<close>

lemma after_max:
  "nextSyncTime (after s sim) =
     max (getLocalMinimumNextActivityTime sim) (getLocalMinimumNextActivityTime sim + my_max_period s)"
  by (auto simp: after_def Let_def max_def)

lemma after_saturates:
  "nextSyncTime (after s sim) =
     (if unat (getLocalMinimumNextActivityTime sim) + unat (my_max_period s) < 2 ^ 64
      then getLocalMinimumNextActivityTime sim + my_max_period s
      else getLocalMinimumNextActivityTime sim)"
proof -
  let ?m = "getLocalMinimumNextActivityTime sim" and ?p = "my_max_period s"
  show ?thesis
  proof (cases "unat ?m + unat ?p < 2 ^ 64")
    case True
    then have "?m \<le> ?m + ?p" by (simp add: no_olen_add_nat)
    with True show ?thesis by (auto simp: after_def Let_def)
  next
    case False
    then have "\<not> ?m \<le> ?m + ?p" by (simp add: no_olen_add_nat)
    with False show ?thesis by (auto simp: after_def Let_def)
  qed
qed

text \<open>
  C1, as stated, at the example: the local minimum is 100 when the epoch starts and 15
  once the Before phase has delivered the buffered event; the code arrives at 25, the
  specification's formula at 110.
\<close>

theorem C1_counterexample:
  "getLocalMinimumNextActivityTime sim_ex = 100
   \<and> getLocalMinimumNextActivityTime (fst (snd (ThreadSyncSimpleSkip_execute (\<lambda>i. 0) (sync_ex, sim_ex, [])))) = 15
   \<and> nextSyncTime (fst (ThreadSyncSimpleSkip_execute (\<lambda>i. 0) (sync_ex, sim_ex, []))) = 25
   \<and> spec_nextSyncTime
        (getLocalMinimumNextActivityTime (fst (snd (ThreadSyncSimpleSkip_execute (\<lambda>i. 0) (sync_ex, sim_ex, [])))))
        (getLocalMinimumNextActivityTime sim_ex) (my_max_period sync_ex) = 110
   \<and> nextSyncTime (fst (ThreadSyncSimpleSkip_execute (\<lambda>i. 0) (sync_ex, sim_ex, [])))
       \<noteq> spec_nextSyncTime
            (getLocalMinimumNextActivityTime (fst (snd (ThreadSyncSimpleSkip_execute (\<lambda>i. 0) (sync_ex, sim_ex, [])))))
            (getLocalMinimumNextActivityTime sim_ex) (my_max_period sync_ex)"
  by (simp add: ThreadSyncSimpleSkip_execute_def before_def after_def Let_def sync_ex_def sim_ex_def
      ThreadSyncSimpleSkip_new_def Link_send_def insertActivity_def getDeliveryLink_def
      getLocalMinimumNextActivityTime_def MAX_SIMTIME_T_def spec_nextSyncTime_def)

text \<open>
  C1, amended. At the end of \<open>after()\<close>, \<open>nextSyncTime\<close> is \<open>max m (m + maxPeriod)\<close> in
  unsigned 64-bit arithmetic, where \<open>m\<close> is the one value
  \<open>getLocalMinimumNextActivityTime()\<close> returns inside \<open>after()\<close>: that is \<open>m + maxPeriod\<close>,
  and \<open>m\<close> itself when the sum would pass \<open>2 ^ 64\<close>. Within \<open>execute()\<close>, \<open>m\<close> is the local
  minimum after the Before phase; no value from the start of the epoch enters.
\<close>

theorem C1_after_nextSyncTime:
  "nextSyncTime (after s sim) =
     max (getLocalMinimumNextActivityTime sim) (getLocalMinimumNextActivityTime sim + my_max_period s)
   \<and> nextSyncTime (after s sim) =
       (if unat (getLocalMinimumNextActivityTime sim) + unat (my_max_period s) < 2 ^ 64
        then getLocalMinimumNextActivityTime sim + my_max_period s
        else getLocalMinimumNextActivityTime sim)
   \<and> nextSyncTime (fst (ThreadSyncSimpleSkip_execute w (s, sim, tr))) =
       max (getLocalMinimumNextActivityTime (snd (before s sim)))
           (getLocalMinimumNextActivityTime (snd (before s sim)) + my_max_period s)"
  using after_saturates [of s sim]
  by (simp add: after_max execute_unfold before_my_max_period)

section \<open>The order of an epoch\<close>

text \<open>
  C3, as stated, at the example: in the trace of \<open>execute()\<close> the Before phase is entered
  before the wait at Barrier #2 (\<open>barrier[1]\<close>), and the After phase before the wait at
  Barrier #3 (\<open>barrier[2]\<close>). When the thread calls the wait of Barrier #2 the buffered event
  is already gone from the queues, and when it calls the wait of Barrier #3 \<open>nextSyncTime\<close>
  is already the new value 25.
\<close>

theorem C3_counterexample:
  "snd (snd (ThreadSyncSimpleSkip_execute (\<lambda>i. 0) (sync_ex, sim_ex, [])))
     = [BarrierWait 0 1 10, BeforePhase, BarrierWait 1 0 10, AfterPhase, BarrierWait 2 0 25]
   \<and> \<not> entered_only_after 1 BeforePhase
        (snd (snd (ThreadSyncSimpleSkip_execute (\<lambda>i. 0) (sync_ex, sim_ex, []))))
   \<and> \<not> entered_only_after 2 AfterPhase
        (snd (snd (ThreadSyncSimpleSkip_execute (\<lambda>i. 0) (sync_ex, sim_ex, []))))"
  by (simp add: execute_unfold)
    (simp add: before_def after_def Let_def sync_ex_def sim_ex_def
      ThreadSyncSimpleSkip_new_def Link_send_def insertActivity_def getDeliveryLink_def
      getLocalMinimumNextActivityTime_def MAX_SIMTIME_T_def)

text \<open>
  C3, amended. \<open>execute()\<close> waits at \<open>barrier[0]\<close> (Barrier #1), runs the Before phase,
  waits at \<open>barrier[1]\<close> (Barrier #2), runs the After phase and waits at \<open>barrier[2]\<close>
  (Barrier #3), in this order and nothing else: Barrier #1 guards the entry of Before,
  Barrier #2 the entry of After, and Barrier #3 closes the epoch. At the wait of Barrier #2
  the queues are already drained and \<open>nextSyncTime\<close> is still the old value; at the wait of
  Barrier #3 \<open>nextSyncTime\<close> is already the new one. The object and the simulation are left
  as Before followed by After leave them.
\<close>

theorem C3_execute_order:
  "snd (snd (ThreadSyncSimpleSkip_execute w (s, sim, tr))) =
     tr @ [BarrierWait 0 (length (concat (queues s))) (nextSyncTime s),
           BeforePhase,
           BarrierWait 1 0 (nextSyncTime s),
           AfterPhase,
           BarrierWait 2 0 (nextSyncTime (after (fst (before s sim)) (snd (before s sim))))]
   \<and> entered_only_after 0 BeforePhase
       (snd (snd (ThreadSyncSimpleSkip_execute w (s, sim, []))))
   \<and> entered_only_after 1 AfterPhase
       (snd (snd (ThreadSyncSimpleSkip_execute w (s, sim, []))))
   \<and> fst (ThreadSyncSimpleSkip_execute w (s, sim, tr)) =
       (after (fst (before s sim)) (snd (before s sim)))\<lparr>totalWaitTime := w 1 + w 2\<rparr>
   \<and> fst (snd (ThreadSyncSimpleSkip_execute w (s, sim, tr))) = snd (before s sim)"
  by (simp add: execute_unfold)

section \<open>Link registration\<close>

lemma link_map_restore:
  assumes "link_map s name = None"
  shows "s\<lparr>link_map := (link_map s)(name := None)\<rparr> = s"
proof -
  have "(link_map s)(name := None) = link_map s"
    using assms by (rule fun_upd_idem)
  then show ?thesis by simp
qed

lemma setLinkDeliveryInfo_sym:
  "setLinkDeliveryInfo a b links = setLinkDeliveryInfo b a links"
  by (cases "a = b") (simp_all add: setLinkDeliveryInfo_def fun_upd_twist)

lemma setLinkDeliveryInfo_wires:
  "wired_both_ways a b (setLinkDeliveryInfo a b links)"
  by (simp add: wired_both_ways_def setLinkDeliveryInfo_def)

lemma second_registration:
  assumes "link_map s name = None"
  shows "registerLink name l (s\<lparr>link_map := (link_map s)(name \<mapsto> x)\<rparr>, links)
           = (s, setLinkDeliveryInfo l x links)"
    and "snd (registerRemoteLink tid name r (s\<lparr>link_map := (link_map s)(name \<mapsto> x)\<rparr>, links))
           = (s, setLinkDeliveryInfo x r links)"
  using link_map_restore [OF assms]
  by (simp_all add: registerLink_def registerRemoteLink_def Let_def)

text \<open>
  C4. Under a name that is not in the map, the first registration stores (name, link) and
  returns, changing no Link. The second registration under that name removes the map entry
  and makes the one call \<open>setLinkDeliveryInfo(local, remote)\<close>, with the Link given to
  \<open>registerLink\<close> as \<open>local\<close> and the Link given to \<open>registerRemoteLink\<close> as \<open>remote\<close>,
  whichever of the two sides arrived first: the result does not depend on the arrival
  order. After it each of the two Links has the other as its delivery info. The same holds
  where both sides register through \<open>registerLink\<close>.
\<close>

theorem C4_registerLink_pairing:
  assumes "link_map s name = None"
  shows "registerLink name l (s, links) = (s\<lparr>link_map := (link_map s)(name \<mapsto> l)\<rparr>, links)
    \<and> snd (registerRemoteLink tid name r (s, links))
        = (s\<lparr>link_map := (link_map s)(name \<mapsto> r)\<rparr>, links)
    \<and> snd (registerRemoteLink tid name r (registerLink name l (s, links)))
        = (s, setLinkDeliveryInfo l r links)
    \<and> registerLink name l (snd (registerRemoteLink tid name r (s, links)))
        = (s, setLinkDeliveryInfo l r links)
    \<and> registerLink name l2 (registerLink name l1 (s, links))
        = registerLink name l1 (registerLink name l2 (s, links))
    \<and> wired_both_ways l r (snd (snd (registerRemoteLink tid name r (registerLink name l (s, links)))))
    \<and> wired_both_ways l r (snd (registerLink name l (snd (registerRemoteLink tid name r (s, links)))))
    \<and> wired_both_ways l1 l2 (snd (registerLink name l2 (registerLink name l1 (s, links))))
    \<and> link_map (fst (snd (registerRemoteLink tid name r (registerLink name l (s, links))))) name = None
    \<and> link_map (fst (registerLink name l (snd (registerRemoteLink tid name r (s, links))))) name = None
    \<and> link_map (fst (registerLink name l2 (registerLink name l1 (s, links)))) name = None"
proof -
  have first_local: "registerLink name x (s, links) = (s\<lparr>link_map := (link_map s)(name \<mapsto> x)\<rparr>, links)"
    for x
    using assms by (simp add: registerLink_def)
  have first_remote: "snd (registerRemoteLink tid name r (s, links))
        = (s\<lparr>link_map := (link_map s)(name \<mapsto> r)\<rparr>, links)"
    using assms by (simp add: registerRemoteLink_def Let_def)
  have local_remote: "snd (registerRemoteLink tid name r (registerLink name l (s, links)))
        = (s, setLinkDeliveryInfo l r links)"
    by (simp only: first_local second_registration(2) [OF assms])
  have remote_local: "registerLink name l (snd (registerRemoteLink tid name r (s, links)))
        = (s, setLinkDeliveryInfo l r links)"
    by (simp only: first_remote second_registration(1) [OF assms])
  have local_local: "registerLink name y (registerLink name x (s, links))
        = (s, setLinkDeliveryInfo y x links)" for x y
    by (simp only: first_local second_registration(1) [OF assms])
  have swap: "registerLink name l2 (registerLink name l1 (s, links))
        = registerLink name l1 (registerLink name l2 (s, links))"
    by (simp only: local_local) (simp add: setLinkDeliveryInfo_sym)
  have w_lr: "wired_both_ways l r (snd (snd (registerRemoteLink tid name r (registerLink name l (s, links)))))"
    unfolding local_remote by (simp add: setLinkDeliveryInfo_wires)
  have w_rl: "wired_both_ways l r (snd (registerLink name l (snd (registerRemoteLink tid name r (s, links)))))"
    unfolding remote_local by (simp add: setLinkDeliveryInfo_wires)
  have w_ll: "wired_both_ways l1 l2 (snd (registerLink name l2 (registerLink name l1 (s, links))))"
    unfolding local_local using setLinkDeliveryInfo_wires [of l1 l2 links]
    by (simp add: setLinkDeliveryInfo_sym)
  have m_lr: "link_map (fst (snd (registerRemoteLink tid name r (registerLink name l (s, links))))) name = None"
    unfolding local_remote using assms by simp
  have m_rl: "link_map (fst (registerLink name l (snd (registerRemoteLink tid name r (s, links))))) name = None"
    unfolding remote_local using assms by simp
  have m_ll: "link_map (fst (registerLink name l2 (registerLink name l1 (s, links)))) name = None"
    unfolding local_local using assms by simp
  show ?thesis
    by (intro conjI first_local first_remote local_remote remote_local swap
        w_lr w_rl w_ll m_lr m_rl m_ll)
qed

theorem C4_registerLink_pairing_witness:
  "link_map sync_ex ''A'' = None
   \<and> snd (registerRemoteLink 1 ''A'' 2 (registerLink ''A'' 1 (sync_ex, Map.empty)))
       = (sync_ex, [1 \<mapsto> 2, 2 \<mapsto> 1])
   \<and> registerLink ''A'' 1 (snd (registerRemoteLink 1 ''A'' 2 (sync_ex, Map.empty)))
       = (sync_ex, [1 \<mapsto> 2, 2 \<mapsto> 1])
   \<and> wired_both_ways 1 2 (snd (registerLink ''A'' 1 (snd (registerRemoteLink 1 ''A'' 2 (sync_ex, Map.empty)))))"
proof -
  have h: "link_map sync_ex ''A'' = None"
    by (simp add: sync_ex_def ThreadSyncSimpleSkip_new_def)
  have v: "setLinkDeliveryInfo 1 2 Map.empty = [1 \<mapsto> 2, 2 \<mapsto> 1]"
    by (simp add: setLinkDeliveryInfo_def)
  show ?thesis
    using h C4_registerLink_pairing [OF h, of 1 Map.empty 1 2 0 0]
    unfolding v by blast
qed

section \<open>Instrumentation\<close>

text \<open>
  C8, as stated, at the example: one event is buffered, so the outstanding volume is 1
  when every Activity counts 1 (and positive for any positive size), while \<open>getDataSize()\<close>
  returns 0.
\<close>

theorem C8_counterexample:
  "spec_outstanding_volume (\<lambda>ev. 1) sync_ex = 1 \<and> unat (getDataSize sync_ex) = 0
   \<and> unat (getDataSize sync_ex) \<noteq> spec_outstanding_volume (\<lambda>ev. 1) sync_ex"
  by (simp add: spec_outstanding_volume_def getDataSize_def sync_ex_def)

text \<open>
  C8, amended. \<open>getDataSize()\<close> returns 0 for every state of the object, whatever is
  buffered in its queues.
\<close>

theorem C8_getDataSize_zero: "getDataSize s = 0"
  by (simp add: getDataSize_def)

section \<open>Unregistering a handler\<close>

lemma erase_first_remove1: "erase_first h xs = remove1 h xs"
  by (induction xs) auto

text \<open>
  C9. \<open>unregisterHandler(h, empty)\<close> removes the first stored reference equal to \<open>h\<close> and
  no other (the list library's \<open>remove1\<close>; spelled out: the vector \<open>ys @ h # zs\<close> with \<open>h\<close>
  not in \<open>ys\<close> becomes \<open>ys @ zs\<close>); a Clock that does not hold \<open>h\<close> is left as it is; \<open>empty\<close>
  tells whether the vector is empty afterwards; the return value is false.
\<close>

theorem C9_unregisterHandler:
  "Clock_unregisterHandler h c =
     (False, c\<lparr>staticHandlerMap := remove1 h (staticHandlerMap c)\<rparr>,
      remove1 h (staticHandlerMap c) = [])
   \<and> (h \<notin> set (staticHandlerMap c) \<longrightarrow> fst (snd (Clock_unregisterHandler h c)) = c)
   \<and> (staticHandlerMap c = ys @ h # zs \<and> h \<notin> set ys \<longrightarrow>
        staticHandlerMap (fst (snd (Clock_unregisterHandler h c))) = ys @ zs)
   \<and> snd (snd (Clock_unregisterHandler h c))
       = (staticHandlerMap (fst (snd (Clock_unregisterHandler h c))) = [])
   \<and> fst (Clock_unregisterHandler h c) = False"
  by (auto simp: Clock_unregisterHandler_def Let_def erase_first_remove1 remove1_idem remove1_append)

theorem C9_unregisterHandler_witness:
  "Clock_unregisterHandler 1 ((Clock_new 10 40)\<lparr>staticHandlerMap := [2, 1, 3, 1]\<rparr>)
     = (False, (Clock_new 10 40)\<lparr>staticHandlerMap := [2, 3, 1]\<rparr>, False)
   \<and> fst (snd (Clock_unregisterHandler 4 ((Clock_new 10 40)\<lparr>staticHandlerMap := [2, 1, 3, 1]\<rparr>)))
     = (Clock_new 10 40)\<lparr>staticHandlerMap := [2, 1, 3, 1]\<rparr>"
  using C9_unregisterHandler [of 1 "(Clock_new 10 40)\<lparr>staticHandlerMap := [2, 1, 3, 1]\<rparr>" "[2]" "[3, 1]"]
    C9_unregisterHandler [of 4 "(Clock_new 10 40)\<lparr>staticHandlerMap := [2, 1, 3, 1]\<rparr>" "[]" "[]"]
  by (simp add: Clock_new_def)

section \<open>Scheduling a Clock\<close>

lemma unat_floor_mult:
  fixes now P :: "64 word"
  shows "unat ((now div P) * P) = (unat now div unat P) * unat P"
proof -
  have "(unat now div unat P) * unat P \<le> unat now" by simp
  also have "\<dots> < 2 ^ 64" using unsigned_less [of now] by simp
  finally have "unat (now div P) * unat P < 2 ^ LENGTH(64)" by (simp add: unat_div)
  then show ?thesis by (simp add: unat_mult_lem [THEN iffD1] unat_div)
qed

lemma next_boundary_nat:
  fixes now P :: "64 word"
  assumes "unat now + unat P < 2 ^ 64"
  shows "unat ((now div P) * P + P) = (unat now div unat P + 1) * unat P"
proof -
  have le: "(unat now div unat P) * unat P \<le> unat now" by simp
  have "(unat now div unat P) * unat P + unat P < 2 ^ 64"
    using assms le by linarith
  then have "unat ((now div P) * P) + unat P < 2 ^ LENGTH(64)"
    by (simp add: unat_floor_mult)
  then have "unat ((now div P) * P + P) = unat ((now div P) * P) + unat P"
    by (simp add: unat_add_lem [THEN iffD1])
  then show ?thesis by (simp add: unat_floor_mult)
qed

lemma first_multiple_after:
  fixes n p :: nat
  assumes "0 < p"
  shows "n < (n div p + 1) * p"
  using assms by (metis Suc_eq_plus1 dividend_less_div_times mult.commute mult_Suc)

lemma first_multiple_least:
  fixes n p m :: nat
  assumes "0 < p" and "p dvd m" and "n < m"
  shows "(n div p + 1) * p \<le> m"
proof -
  from assms(2) obtain k where k: "m = p * k" by (auto simp: dvd_def)
  with assms have "n div p < k"
    by (metis div_less_iff_less_mult mult.commute)
  then have "n div p + 1 \<le> k" by simp
  then have "(n div p + 1) * p \<le> k * p" by (rule mult_le_mono1)
  with k show ?thesis by (simp add: mult.commute)
qed

lemma registerHandler_unscheduled:
  assumes "\<not> scheduled c" and "period c \<noteq> 0"
  shows "Clock_registerHandler this h (c, sim) =
     Inr (False,
          c\<lparr>currentCycle := currentSimCycle sim div period c, scheduled := True,
            staticHandlerMap := staticHandlerMap c @ [h]\<rparr>,
          insertActivity
            (if currentPriority sim < priority c \<and> currentSimCycle sim \<noteq> 0
                \<and> currentSimCycle sim mod period c = 0
             then currentSimCycle sim
             else (currentSimCycle sim div period c) * period c + period c)
            (ClockRef this) sim)"
  using assms by (simp add: Clock_registerHandler_def Clock_schedule_def Let_def)

text \<open>
  C6, as stated, at two examples (period 10, Clock priority 40, current time 20, a period
  boundary). While an Activity of priority 50 (strictly greater than the Clock's) is
  executing, the Clock is inserted for time 30: neither the next multiple of 10 at or after
  20, nor the current time. While an Activity of priority 30 is executing, the Clock is
  inserted for the current time 20 although no Activity of greater priority value is there.
\<close>

theorem C6_counterexample:
  "Clock_registerHandler 0 5 (Clock_new 10 40, sim_at_20 50) =
     Inr (False, (Clock_new 10 40)\<lparr>currentCycle := 2, scheduled := True, staticHandlerMap := [5]\<rparr>,
          insertActivity 30 (ClockRef 0) (sim_at_20 50))
   \<and> spec_next_boundary 20 10 = 20
   \<and> \<not> spec_insertion_allowed 50 40 20 10 30
   \<and> Clock_registerHandler 0 5 (Clock_new 10 40, sim_at_20 30) =
       Inr (False, (Clock_new 10 40)\<lparr>currentCycle := 2, scheduled := True, staticHandlerMap := [5]\<rparr>,
            insertActivity 20 (ClockRef 0) (sim_at_20 30))
   \<and> \<not> spec_tie_break 30 40 20 10"
  by (simp add: Clock_registerHandler_def Clock_schedule_def Let_def Clock_new_def sim_at_20_def
      sim_zero_def spec_next_boundary_def spec_insertion_allowed_def spec_tie_break_def)

text \<open>
  C6, amended. When \<open>registerHandler\<close> is called on a Clock that is not scheduled (and whose
  period is not zero), the handler is appended, the cycle counter is set to the number of
  whole periods elapsed, the Clock is marked scheduled and it is inserted into the Activity
  Queue for the first multiple of its period strictly after the current simulated time
  (\<open>(now div period) * period + period\<close> in unsigned 64-bit arithmetic; at time zero: one
  period). The only exception: when the priority of the Activity being executed is strictly
  less than the Clock's priority, the current time is a multiple of the period and it is not
  zero, the Clock is inserted for the current time. With a period of zero the call fails
  in the division.
\<close>

theorem C6_registerHandler_schedules:
  assumes "\<not> scheduled c" and "period c \<noteq> 0"
  shows "Clock_registerHandler this h (c, sim) =
     Inr (False,
          c\<lparr>currentCycle := currentSimCycle sim div period c, scheduled := True,
            staticHandlerMap := staticHandlerMap c @ [h]\<rparr>,
          insertActivity
            (if currentPriority sim < priority c \<and> currentSimCycle sim \<noteq> 0
                \<and> currentSimCycle sim mod period c = 0
             then currentSimCycle sim
             else (currentSimCycle sim div period c) * period c + period c)
            (ClockRef this) sim)
   \<and> (unat (currentSimCycle sim) + unat (period c) < 2 ^ 64 \<longrightarrow>
        unat ((currentSimCycle sim div period c) * period c + period c)
          = (unat (currentSimCycle sim) div unat (period c) + 1) * unat (period c)
        \<and> unat (currentSimCycle sim) < unat ((currentSimCycle sim div period c) * period c + period c)
        \<and> (\<forall>m. unat (period c) dvd m \<and> unat (currentSimCycle sim) < m \<longrightarrow>
              unat ((currentSimCycle sim div period c) * period c + period c) \<le> m))
   \<and> (currentSimCycle sim = 0 \<longrightarrow>
        snd (snd (projr (Clock_registerHandler this h (c, sim))))
          = insertActivity (period c) (ClockRef this) sim)
   \<and> Clock_registerHandler this h (c\<lparr>period := 0\<rparr>, sim) = Inl DivisionByZero"
proof -
  have pos: "0 < unat (period c)"
    using assms(2) by (simp add: unat_gt_0)
  have nat_part: "unat ((currentSimCycle sim div period c) * period c + period c)
          = (unat (currentSimCycle sim) div unat (period c) + 1) * unat (period c)
        \<and> unat (currentSimCycle sim) < unat ((currentSimCycle sim div period c) * period c + period c)
        \<and> (\<forall>m. unat (period c) dvd m \<and> unat (currentSimCycle sim) < m \<longrightarrow>
              unat ((currentSimCycle sim div period c) * period c + period c) \<le> m)"
    if "unat (currentSimCycle sim) + unat (period c) < 2 ^ 64"
  proof -
    let ?n = "unat (currentSimCycle sim)" and ?p = "unat (period c)"
    have eq: "unat ((currentSimCycle sim div period c) * period c + period c) = (?n div ?p + 1) * ?p"
      by (rule next_boundary_nat [OF that])
    have lt: "?n < (?n div ?p + 1) * ?p"
      by (rule first_multiple_after [OF pos])
    have least: "(?n div ?p + 1) * ?p \<le> m" if "?p dvd m \<and> ?n < m" for m
      using that first_multiple_least [OF pos, of m ?n] by blast
    show ?thesis
      unfolding eq using lt least by blast
  qed
  have zero_part: "snd (snd (projr (Clock_registerHandler this h (c, sim))))
          = insertActivity (period c) (ClockRef this) sim"
    if "currentSimCycle sim = 0"
    using that by (simp add: registerHandler_unscheduled [OF assms])
  have err: "Clock_registerHandler this h (c\<lparr>period := 0\<rparr>, sim) = Inl DivisionByZero"
    using assms(1) by (simp add: Clock_registerHandler_def Clock_schedule_def Let_def)
  show ?thesis
    using registerHandler_unscheduled [OF assms, of this h sim] nat_part zero_part err
    by blast
qed

theorem C6_registerHandler_schedules_witness:
  "\<not> scheduled (Clock_new 10 40) \<and> period (Clock_new 10 40) \<noteq> 0
   \<and> Clock_registerHandler 0 5 (Clock_new 10 40, sim_at_20 50) =
       Inr (False, (Clock_new 10 40)\<lparr>currentCycle := 2, scheduled := True, staticHandlerMap := [5]\<rparr>,
            insertActivity 30 (ClockRef 0) (sim_at_20 50))"
proof -
  have h1: "\<not> scheduled (Clock_new 10 40)" and h2: "period (Clock_new 10 40) \<noteq> 0"
    by (simp_all add: Clock_new_def)
  from C6_registerHandler_schedules [OF h1 h2, of 0 5 "sim_at_20 50"]
  have "Clock_registerHandler 0 5 (Clock_new 10 40, sim_at_20 50) =
     Inr (False,
          (Clock_new 10 40)\<lparr>currentCycle := currentSimCycle (sim_at_20 50) div period (Clock_new 10 40),
            scheduled := True,
            staticHandlerMap := staticHandlerMap (Clock_new 10 40) @ [5]\<rparr>,
          insertActivity
            (if currentPriority (sim_at_20 50) < priority (Clock_new 10 40)
                \<and> currentSimCycle (sim_at_20 50) \<noteq> 0
                \<and> currentSimCycle (sim_at_20 50) mod period (Clock_new 10 40) = 0
             then currentSimCycle (sim_at_20 50)
             else (currentSimCycle (sim_at_20 50) div period (Clock_new 10 40)) * period (Clock_new 10 40)
                    + period (Clock_new 10 40))
            (ClockRef 0) (sim_at_20 50))"
    by blast
  then show ?thesis
    using h1 h2 by (simp add: Clock_new_def sim_at_20_def sim_zero_def)
qed

section \<open>Firing a Clock\<close>

lemma invoke_handlers_pass:
  "pos \<le> length vec \<Longrightarrow>
   invoke_handlers code now cyc vec pos hist =
     (take pos vec @ map inv_handler (filter (\<lambda>e. \<not> inv_done e)
                       (pass_invocations code now cyc (drop pos vec) hist)),
      hist @ pass_invocations code now cyc (drop pos vec) hist)"
proof (induction code now cyc vec pos hist rule: invoke_handlers.induct)
  case (1 code now cyc vec pos hist)
  show ?case
  proof (cases "pos < length vec")
    case False
    then have "invoke_handlers code now cyc vec pos hist = (vec, hist)"
      by (subst invoke_handlers.simps) simp
    with "1.prems" False show ?thesis by simp
  next
    case True
    let ?h = "vec ! pos"
    let ?e = "\<lparr>inv_handler = ?h, inv_cycle = cyc, inv_time = now, inv_done = code hist ?h cyc\<rparr>"
    have dr: "drop pos vec = ?h # drop (Suc pos) vec"
      using True by (simp add: Cons_nth_drop_Suc)
    show ?thesis
    proof (cases "code hist ?h cyc")
      case removed: True
      let ?vec' = "take pos vec @ drop (Suc pos) vec"
      have len: "pos \<le> length ?vec'" using True by simp
      have tk: "take pos ?vec' = take pos vec" using True by simp
      have dr': "drop pos ?vec' = drop (Suc pos) vec" using True by simp
      have "invoke_handlers code now cyc vec pos hist =
              invoke_handlers code now cyc ?vec' pos (hist @ [?e])"
        using True removed by (subst invoke_handlers.simps) (simp add: Let_def)
      also have "\<dots> = (take pos ?vec' @ map inv_handler (filter (\<lambda>e. \<not> inv_done e)
                       (pass_invocations code now cyc (drop pos ?vec') (hist @ [?e]))),
                    (hist @ [?e]) @ pass_invocations code now cyc (drop pos ?vec') (hist @ [?e]))"
        using removed by (intro "1.IH"(1) [OF True refl refl refl _ len]) simp
      also have "\<dots> = (take pos vec @ map inv_handler (filter (\<lambda>e. \<not> inv_done e)
                       (pass_invocations code now cyc (drop (Suc pos) vec) (hist @ [?e]))),
                    (hist @ [?e]) @ pass_invocations code now cyc (drop (Suc pos) vec) (hist @ [?e]))"
        unfolding tk dr' ..
      finally show ?thesis
        unfolding dr using removed by simp
    next
      case keep: False
      have len: "Suc pos \<le> length vec" using True by simp
      have tk: "take (Suc pos) vec = take pos vec @ [?h]"
        using True by (simp add: take_Suc_conv_app_nth)
      have "invoke_handlers code now cyc vec pos hist =
              invoke_handlers code now cyc vec (Suc pos) (hist @ [?e])"
        using True keep by (subst invoke_handlers.simps) (simp add: Let_def)
      also have "\<dots> = (take (Suc pos) vec @ map inv_handler (filter (\<lambda>e. \<not> inv_done e)
                       (pass_invocations code now cyc (drop (Suc pos) vec) (hist @ [?e]))),
                    (hist @ [?e]) @ pass_invocations code now cyc (drop (Suc pos) vec) (hist @ [?e]))"
        using keep by (intro "1.IH"(2) [OF True refl refl refl _ len]) simp
      finally show ?thesis
        unfolding dr tk using keep by simp
    qed
  qed
qed

lemma pass_invocations_handlers:
  "map inv_handler (pass_invocations code now cyc hs hist) = hs"
  by (induction hs arbitrary: hist) simp_all

lemma pass_invocations_cycle:
  "e \<in> set (pass_invocations code now cyc hs hist) \<Longrightarrow> inv_cycle e = cyc \<and> inv_time e = now"
  by (induction hs arbitrary: hist) auto

lemma pass_invocations_answers:
  "i < length hs \<Longrightarrow>
   inv_done (pass_invocations code now cyc hs hist ! i) =
     code (hist @ take i (pass_invocations code now cyc hs hist)) (hs ! i) cyc"
proof (induction hs arbitrary: hist i)
  case Nil
  then show ?case by simp
next
  case (Cons h hs)
  show ?case
  proof (cases i)
    case 0
    then show ?thesis by simp
  next
    case (Suc j)
    with Cons.prems have "j < length hs" by simp
    from Cons.IH [OF this] Suc show ?thesis by simp
  qed
qed

lemma Clock_execute_empty:
  "staticHandlerMap c = [] \<Longrightarrow>
   Clock_execute this code (c, sim, hist) = (c\<lparr>scheduled := False\<rparr>, sim, hist)"
  by (simp add: Clock_execute_def)

lemma Clock_execute_pass:
  "staticHandlerMap c \<noteq> [] \<Longrightarrow>
   Clock_execute this code (c, sim, hist) =
     (c\<lparr>currentCycle := currentCycle c + 1,
        staticHandlerMap := map inv_handler (filter (\<lambda>e. \<not> inv_done e)
           (pass_invocations code (currentSimCycle sim) (currentCycle c + 1) (staticHandlerMap c) hist)),
        nextTime := currentSimCycle sim + period c\<rparr>,
      insertActivity (currentSimCycle sim + period c) (ClockRef this) sim,
      hist @ pass_invocations code (currentSimCycle sim) (currentCycle c + 1) (staticHandlerMap c) hist)"
  by (simp add: Clock_execute_def Let_def invoke_handlers_pass)

lemma find_by_filter:
  "find P xs = (case filter P xs of [] \<Rightarrow> None | x # ys \<Rightarrow> Some x)"
  by (induction xs) simp_all

lemma no_entries_without_handler:
  assumes "h \<notin> set hs"
  shows "filter (\<lambda>e. inv_handler e = h) (pass_invocations code now cyc hs hist) = []"
proof -
  have "inv_handler ` set (pass_invocations code now cyc hs hist) = set hs"
    using pass_invocations_handlers [of code now cyc hs hist] by (metis set_map)
  with assms show ?thesis by (auto simp: filter_empty_conv)
qed

lemma kept_handlers_subset:
  "set (map inv_handler (filter (\<lambda>e. \<not> inv_done e) (pass_invocations code now cyc hs hist)))
     \<subseteq> set hs"
proof -
  have "set (map inv_handler (filter (\<lambda>e. \<not> inv_done e) (pass_invocations code now cyc hs hist)))
          \<subseteq> set (map inv_handler (pass_invocations code now cyc hs hist))"
    by auto
  then show ?thesis by (simp only: pass_invocations_handlers)
qed

lemma removed_handler_gone:
  assumes "distinct hs"
    and "e \<in> set (pass_invocations code now cyc hs hist)"
    and "inv_done e"
  shows "inv_handler e \<notin> set (map inv_handler (filter (\<lambda>e. \<not> inv_done e)
                                  (pass_invocations code now cyc hs hist)))"
proof
  let ?ents = "pass_invocations code now cyc hs hist"
  assume "inv_handler e \<in> set (map inv_handler (filter (\<lambda>e. \<not> inv_done e) ?ents))"
  then obtain e' where e': "e' \<in> set ?ents" "\<not> inv_done e'" "inv_handler e' = inv_handler e"
    by auto
  have "distinct (map inv_handler ?ents)"
    using assms(1) by (simp only: pass_invocations_handlers)
  then have "inj_on inv_handler (set ?ents)"
    by (simp add: distinct_map)
  with e' assms(2) have "e' = e" by (auto dest: inj_onD)
  with e'(2) assms(3) show False by simp
qed

lemma execute_without_handler:
  assumes "h \<notin> set (staticHandlerMap c)"
  shows "filter (\<lambda>e. inv_handler e = h) (snd (snd (Clock_execute this code (c, sim, hist))))
           = filter (\<lambda>e. inv_handler e = h) hist
         \<and> h \<notin> set (staticHandlerMap (fst (Clock_execute this code (c, sim, hist))))"
proof (cases "staticHandlerMap c = []")
  case True
  then show ?thesis by (simp add: Clock_execute_empty)
next
  case False
  have "h \<notin> set (map inv_handler (filter (\<lambda>e. \<not> inv_done e)
           (pass_invocations code (currentSimCycle sim) (currentCycle c + 1) (staticHandlerMap c) hist)))"
    using assms kept_handlers_subset by blast
  then show ?thesis
    using no_entries_without_handler [OF assms]
    by (simp add: Clock_execute_pass [OF False])
qed

lemma fire_without_handler:
  assumes "h \<notin> set (staticHandlerMap c)"
    and "fire_clock this code (c, sim, hist) = Some st'"
  shows "filter (\<lambda>e. inv_handler e = h) (snd (snd st')) = filter (\<lambda>e. inv_handler e = h) hist
         \<and> h \<notin> set (staticHandlerMap (fst st'))"
proof -
  from assms(2) obtain sim2 where "st' = Clock_execute this code (c, sim2, hist)"
    by (auto simp: fire_clock_def split: option.splits)
  then show ?thesis
    using execute_without_handler [OF assms(1)] by simp
qed

lemma run_without_handler:
  assumes "h \<notin> set (staticHandlerMap (fst st))"
    and "run_clock this code n st = Some st'"
  shows "filter (\<lambda>e. inv_handler e = h) (snd (snd st')) = filter (\<lambda>e. inv_handler e = h) (snd (snd st))
         \<and> h \<notin> set (staticHandlerMap (fst st'))"
  using assms
proof (induction n arbitrary: st)
  case 0
  then show ?case by simp
next
  case (Suc n)
  from Suc.prems(2) obtain st1 where
    f: "fire_clock this code st = Some st1" and r: "run_clock this code n st1 = Some st'"
    by (auto split: option.splits)
  obtain c sim hist where st: "st = (c, sim, hist)" by (cases st) auto
  from fire_without_handler [of h c this code sim hist st1] Suc.prems(1) f st
  have 1: "filter (\<lambda>e. inv_handler e = h) (snd (snd st1)) = filter (\<lambda>e. inv_handler e = h) hist"
    and 2: "h \<notin> set (staticHandlerMap (fst st1))" by auto
  from Suc.IH [OF 2 r] 1 st show ?case by simp
qed

lemma only_handler_removed:
  assumes "staticHandlerMap c = [h]" and "code hist h (currentCycle c + 1)"
  shows "Clock_execute this code (c, sim, hist) =
     (c\<lparr>currentCycle := currentCycle c + 1, staticHandlerMap := [],
        nextTime := currentSimCycle sim + period c\<rparr>,
      insertActivity (currentSimCycle sim + period c) (ClockRef this) sim,
      hist @ [\<lparr>inv_handler = h, inv_cycle = currentCycle c + 1, inv_time = currentSimCycle sim,
               inv_done = True\<rparr>])"
proof -
  have ne: "staticHandlerMap c \<noteq> []" using assms(1) by simp
  show ?thesis
    using assms by (simp add: Clock_execute_pass [OF ne])
qed

lemma idle_clock_drops_out:
  assumes "staticHandlerMap c = []" and "\<not> clock_in_queue this sim"
  shows "fire_clock this code (c, insertActivity t (ClockRef this) sim, hist) =
           Some (c\<lparr>scheduled := False\<rparr>,
                 sim\<lparr>currentSimCycle := t, currentPriority := priority c\<rparr>, hist)"
proof -
  have none: "filter (\<lambda>e. snd e = ClockRef this) (timeVortex sim) = []"
    using assms(2) by (auto simp: clock_in_queue_def list_ex_iff filter_empty_conv)
  then have notin: "(t, ClockRef this) \<notin> set (timeVortex sim)"
    by (auto simp: filter_empty_conv)
  have "find (\<lambda>e. snd e = ClockRef this) (timeVortex sim @ [(t, ClockRef this)])
          = Some (t, ClockRef this)"
    by (simp add: find_by_filter none)
  moreover have "remove1 (t, ClockRef this) (timeVortex sim @ [(t, ClockRef this)]) = timeVortex sim"
    using notin by (simp add: remove1_append)
  ultimately show ?thesis
    using assms(1) by (simp add: fire_clock_def insertActivity_def Clock_execute_empty)
qed

lemma fire_absent_clock:
  assumes "\<not> clock_in_queue this sim"
  shows "fire_clock this code (c, sim, hist) = None"
proof -
  have "filter (\<lambda>e. snd e = ClockRef this) (timeVortex sim) = []"
    using assms by (auto simp: clock_in_queue_def list_ex_iff filter_empty_conv)
  then show ?thesis by (simp add: fire_clock_def find_by_filter)
qed

text \<open>
  C5, as stated, at an example: handler 5 is the only handler of a Clock of period 10,
  registered at time zero, and asks for removal at its first invocation (time 10). When
  that firing ends the handler is gone, and the Clock is in the Activity Queue again, for
  time 20.
\<close>

theorem C5_counterexample:
  "Clock_registerHandler 0 5 (Clock_new 10 40, sim_zero)
     = Inr (False, clock_ex, insertActivity 10 (ClockRef 0) sim_zero)
   \<and> fire_clock 0 remove_me (clock_ex, insertActivity 10 (ClockRef 0) sim_zero, [])
     = Some (clock_ex\<lparr>currentCycle := 1, staticHandlerMap := [], nextTime := 20\<rparr>,
             sim_at_10\<lparr>timeVortex := [(20, ClockRef 0)]\<rparr>,
             [\<lparr>inv_handler = 5, inv_cycle = 1, inv_time = 10, inv_done = True\<rparr>])
   \<and> clock_in_queue 0 (sim_at_10\<lparr>timeVortex := [(20, ClockRef 0)]\<rparr>)"
  by (simp add: Clock_registerHandler_def Clock_schedule_def Let_def clock_ex_def Clock_new_def
      sim_zero_def sim_at_10_def insertActivity_def fire_clock_def Clock_execute_pass remove_me_def
      clock_in_queue_def)

text \<open>
  C5, amended. In a firing, every stored handler is invoked once, in order, with the
  incremented cycle number; a handler whose invocation returns "remove me" is erased at
  once, before the loop goes on (the loop continues on the vector without that element),
  and the vector after the firing holds exactly the handlers that did not ask for removal;
  a handler no longer in the vector is not invoked in any later firing. If the removed
  handler was the only one, the Clock still reinserts itself once, one period later, at the
  end of that firing; when that entry is delivered it invokes nothing, marks itself
  unscheduled and does not reinsert itself, and from then on it is absent from the Activity
  Queue and never fires.
\<close>

theorem C5_self_removal:
  assumes "staticHandlerMap c \<noteq> []"
  shows
   "(\<exists>ents.
        snd (snd (Clock_execute this code (c, sim, hist))) = hist @ ents
      \<and> map inv_handler ents = staticHandlerMap c
      \<and> (\<forall>i<length ents. inv_cycle (ents ! i) = currentCycle c + 1
             \<and> inv_done (ents ! i)
                 = code (hist @ take i ents) (staticHandlerMap c ! i) (currentCycle c + 1))
      \<and> staticHandlerMap (fst (Clock_execute this code (c, sim, hist)))
           = map inv_handler (filter (\<lambda>e. \<not> inv_done e) ents)
      \<and> (distinct (staticHandlerMap c) \<longrightarrow>
           (\<forall>e\<in>set ents. inv_done e \<longrightarrow>
              inv_handler e \<notin> set (staticHandlerMap (fst (Clock_execute this code (c, sim, hist)))))))
    \<and> (pos < length vec \<and> code hist0 (vec ! pos) cyc \<longrightarrow>
         invoke_handlers code now cyc vec pos hist0
           = invoke_handlers code now cyc (take pos vec @ drop (Suc pos) vec) pos
               (hist0 @ [\<lparr>inv_handler = vec ! pos, inv_cycle = cyc, inv_time = now, inv_done = True\<rparr>]))
    \<and> (h \<notin> set (staticHandlerMap (fst (Clock_execute this code (c, sim, hist))))
         \<and> run_clock this code n (Clock_execute this code (c, sim, hist)) = Some st' \<longrightarrow>
         filter (\<lambda>e. inv_handler e = h) (snd (snd st'))
           = filter (\<lambda>e. inv_handler e = h) (snd (snd (Clock_execute this code (c, sim, hist)))))
    \<and> (staticHandlerMap c = [h] \<and> code hist h (currentCycle c + 1) \<and> \<not> clock_in_queue this sim \<longrightarrow>
         staticHandlerMap (fst (Clock_execute this code (c, sim, hist))) = []
         \<and> scheduled (fst (Clock_execute this code (c, sim, hist))) = scheduled c
         \<and> fst (snd (Clock_execute this code (c, sim, hist)))
             = insertActivity (currentSimCycle sim + period c) (ClockRef this) sim
         \<and> clock_in_queue this (fst (snd (Clock_execute this code (c, sim, hist))))
         \<and> fire_clock this code (Clock_execute this code (c, sim, hist))
             = Some ((fst (Clock_execute this code (c, sim, hist)))\<lparr>scheduled := False\<rparr>,
                     sim\<lparr>currentSimCycle := currentSimCycle sim + period c,
                         currentPriority := priority c\<rparr>,
                     snd (snd (Clock_execute this code (c, sim, hist))))
         \<and> \<not> clock_in_queue this
               (sim\<lparr>currentSimCycle := currentSimCycle sim + period c, currentPriority := priority c\<rparr>)
         \<and> run_clock this code (Suc m)
               ((fst (Clock_execute this code (c, sim, hist)))\<lparr>scheduled := False\<rparr>,
                sim\<lparr>currentSimCycle := currentSimCycle sim + period c, currentPriority := priority c\<rparr>,
                snd (snd (Clock_execute this code (c, sim, hist)))) = None)"
proof -
  let ?X = "Clock_execute this code (c, sim, hist)"
  let ?ents = "pass_invocations code (currentSimCycle sim) (currentCycle c + 1) (staticHandlerMap c) hist"
  have X: "?X = (c\<lparr>currentCycle := currentCycle c + 1,
                   staticHandlerMap := map inv_handler (filter (\<lambda>e. \<not> inv_done e) ?ents),
                   nextTime := currentSimCycle sim + period c\<rparr>,
                 insertActivity (currentSimCycle sim + period c) (ClockRef this) sim,
                 hist @ ?ents)"
    by (rule Clock_execute_pass [OF assms])
  have len: "length ?ents = length (staticHandlerMap c)"
    using pass_invocations_handlers [of code "currentSimCycle sim" "currentCycle c + 1" "staticHandlerMap c" hist]
    by (metis length_map)
  have part1: "\<exists>ents.
        snd (snd ?X) = hist @ ents
      \<and> map inv_handler ents = staticHandlerMap c
      \<and> (\<forall>i<length ents. inv_cycle (ents ! i) = currentCycle c + 1
             \<and> inv_done (ents ! i)
                 = code (hist @ take i ents) (staticHandlerMap c ! i) (currentCycle c + 1))
      \<and> staticHandlerMap (fst ?X) = map inv_handler (filter (\<lambda>e. \<not> inv_done e) ents)
      \<and> (distinct (staticHandlerMap c) \<longrightarrow>
           (\<forall>e\<in>set ents. inv_done e \<longrightarrow> inv_handler e \<notin> set (staticHandlerMap (fst ?X))))"
  proof (intro exI [of _ ?ents] conjI allI impI ballI)
    show "snd (snd ?X) = hist @ ?ents" by (simp add: X)
    show "map inv_handler ?ents = staticHandlerMap c" by (rule pass_invocations_handlers)
    show "inv_cycle (?ents ! i) = currentCycle c + 1" if "i < length ?ents" for i
      using that pass_invocations_cycle [of "?ents ! i"] by (meson nth_mem)
    show "inv_done (?ents ! i) = code (hist @ take i ?ents) (staticHandlerMap c ! i) (currentCycle c + 1)"
      if "i < length ?ents" for i
      using that len by (simp add: pass_invocations_answers)
    show "staticHandlerMap (fst ?X) = map inv_handler (filter (\<lambda>e. \<not> inv_done e) ?ents)"
      by (simp add: X)
    show "inv_handler e \<notin> set (staticHandlerMap (fst ?X))"
      if "distinct (staticHandlerMap c)" "e \<in> set ?ents" "inv_done e" for e
      using removed_handler_gone [OF that] by (simp add: X)
  qed
  have part2: "invoke_handlers code now cyc vec pos hist0
           = invoke_handlers code now cyc (take pos vec @ drop (Suc pos) vec) pos
               (hist0 @ [\<lparr>inv_handler = vec ! pos, inv_cycle = cyc, inv_time = now, inv_done = True\<rparr>])"
    if "pos < length vec \<and> code hist0 (vec ! pos) cyc"
    using that by (subst invoke_handlers.simps) (simp add: Let_def)
  have part3: "filter (\<lambda>e. inv_handler e = h) (snd (snd st'))
           = filter (\<lambda>e. inv_handler e = h) (snd (snd ?X))"
    if "h \<notin> set (staticHandlerMap (fst ?X)) \<and> run_clock this code n ?X = Some st'"
    using that run_without_handler [of h ?X this code n st'] by blast
  have part4: "staticHandlerMap (fst ?X) = []
         \<and> scheduled (fst ?X) = scheduled c
         \<and> fst (snd ?X) = insertActivity (currentSimCycle sim + period c) (ClockRef this) sim
         \<and> clock_in_queue this (fst (snd ?X))
         \<and> fire_clock this code ?X
             = Some ((fst ?X)\<lparr>scheduled := False\<rparr>,
                     sim\<lparr>currentSimCycle := currentSimCycle sim + period c,
                         currentPriority := priority c\<rparr>,
                     snd (snd ?X))
         \<and> \<not> clock_in_queue this
               (sim\<lparr>currentSimCycle := currentSimCycle sim + period c, currentPriority := priority c\<rparr>)
         \<and> run_clock this code (Suc m)
               ((fst ?X)\<lparr>scheduled := False\<rparr>,
                sim\<lparr>currentSimCycle := currentSimCycle sim + period c, currentPriority := priority c\<rparr>,
                snd (snd ?X)) = None"
    if only: "staticHandlerMap c = [h] \<and> code hist h (currentCycle c + 1) \<and> \<not> clock_in_queue this sim"
  proof -
    let ?c1 = "c\<lparr>currentCycle := currentCycle c + 1, staticHandlerMap := [],
                 nextTime := currentSimCycle sim + period c\<rparr>"
    let ?t = "currentSimCycle sim + period c"
    let ?h1 = "hist @ [\<lparr>inv_handler = h, inv_cycle = currentCycle c + 1,
                        inv_time = currentSimCycle sim, inv_done = True\<rparr>]"
    let ?sim2 = "sim\<lparr>currentSimCycle := ?t, currentPriority := priority c\<rparr>"
    have X1: "?X = (?c1, insertActivity ?t (ClockRef this) sim, ?h1)"
      using only by (simp add: only_handler_removed)
    have idle: "staticHandlerMap ?c1 = []" by simp
    have absent: "\<not> clock_in_queue this sim" using only by simp
    have fire: "fire_clock this code (?c1, insertActivity ?t (ClockRef this) sim, ?h1)
                  = Some (?c1\<lparr>scheduled := False\<rparr>, ?sim2, ?h1)"
      using idle_clock_drops_out [OF idle absent, of code ?t ?h1] by simp
    have absent2: "\<not> clock_in_queue this ?sim2"
      using absent by (simp add: clock_in_queue_def)
    have never: "run_clock this code (Suc m) (?c1\<lparr>scheduled := False\<rparr>, ?sim2, ?h1) = None"
      using fire_absent_clock [OF absent2] by simp
    have inq: "clock_in_queue this (insertActivity ?t (ClockRef this) sim)"
      by (simp add: clock_in_queue_def insertActivity_def)
    show ?thesis
      unfolding X1 using fire absent2 never inq by simp
  qed
  show ?thesis
    using part1 part2 part3 part4 by blast
qed

theorem C5_self_removal_witness:
  "staticHandlerMap clock_ex \<noteq> []
   \<and> fire_clock 0 remove_me (Clock_execute 0 remove_me (clock_ex, sim_at_10, []))
       = Some ((fst (Clock_execute 0 remove_me (clock_ex, sim_at_10, [])))\<lparr>scheduled := False\<rparr>,
               sim_at_10\<lparr>currentSimCycle := 20, currentPriority := 40\<rparr>,
               snd (snd (Clock_execute 0 remove_me (clock_ex, sim_at_10, []))))
   \<and> run_clock 0 remove_me (Suc 0)
        ((fst (Clock_execute 0 remove_me (clock_ex, sim_at_10, [])))\<lparr>scheduled := False\<rparr>,
         sim_at_10\<lparr>currentSimCycle := 20, currentPriority := 40\<rparr>,
         snd (snd (Clock_execute 0 remove_me (clock_ex, sim_at_10, [])))) = None"
proof -
  have ne: "staticHandlerMap clock_ex \<noteq> []"
    by (simp add: clock_ex_def)
  have only: "staticHandlerMap clock_ex = [5] \<and> remove_me [] 5 (currentCycle clock_ex + 1)
                \<and> \<not> clock_in_queue 0 sim_at_10"
    by (simp add: clock_ex_def remove_me_def clock_in_queue_def sim_at_10_def sim_zero_def)
  have vals: "currentSimCycle sim_at_10 + period clock_ex = 20" "priority clock_ex = 40"
    by (simp_all add: clock_ex_def Clock_new_def sim_at_10_def sim_zero_def)
  from C5_self_removal [OF ne, of 0 remove_me sim_at_10 "[]" 0 "[]" "[]" 0 0 5 0 "(clock_ex, sim_at_10, [])" 0] only
  have "fire_clock 0 remove_me (Clock_execute 0 remove_me (clock_ex, sim_at_10, []))
       = Some ((fst (Clock_execute 0 remove_me (clock_ex, sim_at_10, [])))\<lparr>scheduled := False\<rparr>,
               sim_at_10\<lparr>currentSimCycle := currentSimCycle sim_at_10 + period clock_ex,
                          currentPriority := priority clock_ex\<rparr>,
               snd (snd (Clock_execute 0 remove_me (clock_ex, sim_at_10, []))))
    \<and> run_clock 0 remove_me (Suc 0)
        ((fst (Clock_execute 0 remove_me (clock_ex, sim_at_10, [])))\<lparr>scheduled := False\<rparr>,
         sim_at_10\<lparr>currentSimCycle := currentSimCycle sim_at_10 + period clock_ex,
                    currentPriority := priority clock_ex\<rparr>,
         snd (snd (Clock_execute 0 remove_me (clock_ex, sim_at_10, [])))) = None"
    by blast
  then show ?thesis
    using ne unfolding vals by blast
qed

section \<open>Cycle numbers\<close>

lemma persistent_entries:
  assumes "\<forall>hist cyc. \<not> code hist h cyc"
  shows "filter (\<lambda>e. inv_handler e = h) (pass_invocations code now cyc hs hist)
           = replicate (count_list hs h)
               \<lparr>inv_handler = h, inv_cycle = cyc, inv_time = now, inv_done = False\<rparr>"
  using assms by (induction hs arbitrary: hist) simp_all

lemma persistent_kept:
  assumes "\<forall>hist cyc. \<not> code hist h cyc"
  shows "count_list (map inv_handler (filter (\<lambda>e. \<not> inv_done e)
                       (pass_invocations code now cyc hs hist))) h = count_list hs h"
  using assms by (induction hs arbitrary: hist) simp_all

lemma register_all_scheduled:
  "scheduled c \<Longrightarrow>
   register_all this hs (c, sim) = Inr (c\<lparr>staticHandlerMap := staticHandlerMap c @ hs\<rparr>, sim)"
  by (induction hs arbitrary: c) (simp_all add: Clock_registerHandler_def Let_def)

lemma register_all_at_zero:
  assumes "P \<noteq> 0" and "currentSimCycle sim = 0" and "hs \<noteq> []"
  shows "register_all this hs (Clock_new P prio, sim) =
           Inr ((Clock_new P prio)\<lparr>scheduled := True, staticHandlerMap := hs\<rparr>,
                insertActivity P (ClockRef this) sim)"
proof -
  from assms(3) obtain h rest where hs: "hs = h # rest" by (cases hs) auto
  have u: "\<not> scheduled (Clock_new P prio)" and p: "period (Clock_new P prio) \<noteq> 0"
    using assms(1) by (simp_all add: Clock_new_def)
  have first: "Clock_registerHandler this h (Clock_new P prio, sim) =
      Inr (False, (Clock_new P prio)\<lparr>scheduled := True, staticHandlerMap := [h]\<rparr>,
           insertActivity P (ClockRef this) sim)"
    using assms(2) by (simp add: registerHandler_unscheduled [OF u p]) (simp add: Clock_new_def)
  show ?thesis
    unfolding hs by (simp add: first register_all_scheduled)
qed

lemma fire_persistent:
  assumes "\<forall>hist cyc. \<not> code hist h cyc"
    and "count_list (staticHandlerMap c) h = 1"
    and "filter (\<lambda>e. snd e = ClockRef this) (timeVortex sim) = [(t, ClockRef this)]"
  shows "\<exists>c' sim' hist'.
           fire_clock this code (c, sim, hist) = Some (c', sim', hist')
         \<and> currentCycle c' = currentCycle c + 1
         \<and> period c' = period c
         \<and> count_list (staticHandlerMap c') h = 1
         \<and> filter (\<lambda>e. snd e = ClockRef this) (timeVortex sim') = [(t + period c, ClockRef this)]
         \<and> filter (\<lambda>e. inv_handler e = h) hist'
             = filter (\<lambda>e. inv_handler e = h) hist
                 @ [\<lparr>inv_handler = h, inv_cycle = currentCycle c + 1, inv_time = t, inv_done = False\<rparr>]"
proof -
  let ?e = "(t, ClockRef this)"
  let ?sim2 = "sim\<lparr>currentSimCycle := t, currentPriority := priority c,
                    timeVortex := remove1 ?e (timeVortex sim)\<rparr>"
  let ?ents = "pass_invocations code t (currentCycle c + 1) (staticHandlerMap c) hist"
  have ne: "staticHandlerMap c \<noteq> []"
    using assms(2) by auto
  have found: "find (\<lambda>e. snd e = ClockRef this) (timeVortex sim) = Some ?e"
    by (simp add: find_by_filter assms(3))
  have rest: "filter (\<lambda>e. snd e = ClockRef this) (remove1 ?e (timeVortex sim)) = []"
    by (simp add: filter_remove1 assms(3))
  have fire: "fire_clock this code (c, sim, hist) = Some (Clock_execute this code (c, ?sim2, hist))"
    by (simp add: fire_clock_def found)
  have ne2: "staticHandlerMap c \<noteq> []" by (rule ne)
  have ex: "Clock_execute this code (c, ?sim2, hist) =
     (c\<lparr>currentCycle := currentCycle c + 1,
        staticHandlerMap := map inv_handler (filter (\<lambda>e. \<not> inv_done e) ?ents),
        nextTime := t + period c\<rparr>,
      insertActivity (t + period c) (ClockRef this) ?sim2,
      hist @ ?ents)"
    using Clock_execute_pass [OF ne2, of this code ?sim2 hist] by simp
  show ?thesis
    unfolding fire ex
    using persistent_entries [where code = code and h = h and now = t and cyc = "currentCycle c + 1"
          and hs = "staticHandlerMap c" and hist = hist, OF assms(1)]
      persistent_kept [where code = code and h = h and now = t and cyc = "currentCycle c + 1"
          and hs = "staticHandlerMap c" and hist = hist, OF assms(1)]
      assms(2) rest
    by (simp add: insertActivity_def)
qed

lemma fire_entries:
  assumes "fire_clock this code (c, sim, hist) = Some (c', sim', hist')"
    and "filter (\<lambda>e. snd e = ClockRef this) (timeVortex sim) = [(t, ClockRef this)]"
  shows "\<exists>ents. hist' = hist @ ents
           \<and> (\<forall>e\<in>set ents. inv_cycle e = currentCycle c + 1 \<and> inv_time e = t)"
proof -
  let ?sim2 = "sim\<lparr>currentSimCycle := t, currentPriority := priority c,
                    timeVortex := remove1 (t, ClockRef this) (timeVortex sim)\<rparr>"
  have found: "find (\<lambda>e. snd e = ClockRef this) (timeVortex sim) = Some (t, ClockRef this)"
    by (simp add: find_by_filter assms(2))
  with assms(1) have ex: "Clock_execute this code (c, ?sim2, hist) = (c', sim', hist')"
    by (simp add: fire_clock_def)
  show ?thesis
  proof (cases "staticHandlerMap c = []")
    case True
    with ex show ?thesis by (simp add: Clock_execute_empty)
  next
    case False
    let ?ents = "pass_invocations code t (currentCycle c + 1) (staticHandlerMap c) hist"
    from ex have "hist' = hist @ ?ents"
      using Clock_execute_pass [OF False, of this code ?sim2 hist] by simp
    moreover have "\<forall>e\<in>set ?ents. inv_cycle e = currentCycle c + 1 \<and> inv_time e = t"
      using pass_invocations_cycle by blast
    ultimately show ?thesis by blast
  qed
qed

lemma run_persistent:
  assumes "\<forall>hist cyc. \<not> code hist h cyc"
  shows "count_list (staticHandlerMap c) h = 1 \<Longrightarrow>
         filter (\<lambda>e. snd e = ClockRef this) (timeVortex sim) = [(t, ClockRef this)] \<Longrightarrow>
         \<exists>c' sim' hist'.
           run_clock this code n (c, sim, hist) = Some (c', sim', hist')
         \<and> filter (\<lambda>e. inv_handler e = h) hist'
             = filter (\<lambda>e. inv_handler e = h) hist
                 @ map (\<lambda>k. \<lparr>inv_handler = h, inv_cycle = currentCycle c + 1 + of_nat k,
                              inv_time = t + of_nat k * period c, inv_done = False\<rparr>) [0..<n]
         \<and> (\<exists>new. hist' = hist @ new
               \<and> (\<forall>e\<in>set new. \<exists>k<n. inv_cycle e = currentCycle c + 1 + of_nat k
                                      \<and> inv_time e = t + of_nat k * period c))"
proof (induction n arbitrary: c sim hist t)
  case 0
  then show ?case by simp
next
  case (Suc n)
  from fire_persistent [where code = code and h = h and hist = hist, OF assms Suc.prems(1) Suc.prems(2)]
  obtain c1 sim1 hist1 where
    f: "fire_clock this code (c, sim, hist) = Some (c1, sim1, hist1)"
    and cyc: "currentCycle c1 = currentCycle c + 1"
    and per: "period c1 = period c"
    and cnt: "count_list (staticHandlerMap c1) h = 1"
    and tv: "filter (\<lambda>e. snd e = ClockRef this) (timeVortex sim1) = [(t + period c, ClockRef this)]"
    and h1: "filter (\<lambda>e. inv_handler e = h) hist1
             = filter (\<lambda>e. inv_handler e = h) hist
                 @ [\<lparr>inv_handler = h, inv_cycle = currentCycle c + 1, inv_time = t, inv_done = False\<rparr>]"
    by blast
  from Suc.IH [OF cnt tv, of hist1]
  obtain c' sim' hist' where
    r: "run_clock this code n (c1, sim1, hist1) = Some (c', sim', hist')"
    and h': "filter (\<lambda>e. inv_handler e = h) hist'
             = filter (\<lambda>e. inv_handler e = h) hist1
                 @ map (\<lambda>k. \<lparr>inv_handler = h, inv_cycle = currentCycle c1 + 1 + of_nat k,
                              inv_time = t + period c + of_nat k * period c1, inv_done = False\<rparr>) [0..<n]"
    and "\<exists>new. hist' = hist1 @ new
               \<and> (\<forall>e\<in>set new. \<exists>k<n. inv_cycle e = currentCycle c1 + 1 + of_nat k
                                      \<and> inv_time e = t + period c + of_nat k * period c1)"
    by blast
  then obtain new1 where
    n1: "hist' = hist1 @ new1"
    and n1c: "\<forall>e\<in>set new1. \<exists>k<n. inv_cycle e = currentCycle c1 + 1 + of_nat k
                                      \<and> inv_time e = t + period c + of_nat k * period c1"
    by blast
  from fire_entries [OF f Suc.prems(2)] obtain ents1 where
    e1: "hist1 = hist @ ents1"
    and e1c: "\<forall>e\<in>set ents1. inv_cycle e = currentCycle c + 1 \<and> inv_time e = t"
    by blast
  have all_new: "\<exists>k<Suc n. inv_cycle e = currentCycle c + 1 + of_nat k
                    \<and> inv_time e = t + of_nat k * period c"
    if "e \<in> set (ents1 @ new1)" for e
  proof (cases "e \<in> set ents1")
    case True
    with e1c have "inv_cycle e = currentCycle c + 1 + of_nat 0 \<and> inv_time e = t + of_nat 0 * period c"
      by simp
    then show ?thesis by blast
  next
    case False
    with that have "e \<in> set new1" by simp
    with n1c obtain k where k: "k < n" "inv_cycle e = currentCycle c1 + 1 + of_nat k"
      "inv_time e = t + period c + of_nat k * period c1" by blast
    then have "inv_cycle e = currentCycle c + 1 + of_nat (Suc k)
                 \<and> inv_time e = t + of_nat (Suc k) * period c"
      unfolding cyc per by (simp add: algebra_simps)
    with k(1) show ?thesis by blast
  qed
  have "run_clock this code (Suc n) (c, sim, hist) = Some (c', sim', hist')"
    using f r by simp
  moreover have "filter (\<lambda>e. inv_handler e = h) hist'
             = filter (\<lambda>e. inv_handler e = h) hist
                 @ map (\<lambda>k. \<lparr>inv_handler = h, inv_cycle = currentCycle c + 1 + of_nat k,
                              inv_time = t + of_nat k * period c, inv_done = False\<rparr>) [0..<Suc n]"
    unfolding h' h1 cyc per map_upt_Suc by (simp add: algebra_simps)
  moreover have "hist' = hist @ (ents1 @ new1)"
    by (simp add: n1 e1)
  ultimately show ?case using all_new by blast
qed

text \<open>
  C7. A Clock of period \<open>P\<close> (not zero) is created and handlers \<open>hs\<close> are registered with
  it at time zero; \<open>h\<close> is among them, registered once, and persistent (its invocations
  never return "remove me"); the other handlers may do as they like. Then the Clock fires
  \<open>n\<close> times, for every \<open>n\<close>, and the invocations of \<open>h\<close> in these firings are exactly \<open>n\<close>:
  the \<open>k\<close>-th one at simulated time \<open>k * P\<close> with cycle number \<open>k\<close> (in 64-bit arithmetic; as
  numbers 1, 2, ..., \<open>n\<close> as long as \<open>n\<close> is below \<open>2 ^ 64\<close>), with no skips and no repeats.
  Every invocation of any handler in these firings is at some time \<open>k * P\<close> and receives that
  \<open>k\<close> as its cycle number.
\<close>

theorem C7_cycle_numbers:
  assumes "P \<noteq> 0"
    and "currentSimCycle sim = 0"
    and "\<not> clock_in_queue this sim"
    and "count_list hs h = 1"
    and "\<forall>hist cyc. \<not> code hist h cyc"
  shows "\<exists>c1 sim1 c' sim' hist'.
           register_all this hs (Clock_new P prio, sim) = Inr (c1, sim1)
         \<and> run_clock this code n (c1, sim1, []) = Some (c', sim', hist')
         \<and> map (\<lambda>e. (inv_cycle e, inv_time e)) (filter (\<lambda>e. inv_handler e = h) hist')
             = map (\<lambda>k. (of_nat (Suc k), of_nat (Suc k) * P)) [0..<n]
         \<and> (n < 2 ^ 64 \<longrightarrow>
              map (\<lambda>e. unat (inv_cycle e)) (filter (\<lambda>e. inv_handler e = h) hist') = [1..<Suc n])
         \<and> (\<forall>e\<in>set hist'. \<exists>k<n. inv_cycle e = of_nat (Suc k) \<and> inv_time e = of_nat (Suc k) * P)"
proof -
  let ?c1 = "(Clock_new P prio)\<lparr>scheduled := True, staticHandlerMap := hs\<rparr>"
  let ?sim1 = "insertActivity P (ClockRef this) sim"
  have ne: "hs \<noteq> []" using assms(4) by auto
  have reg: "register_all this hs (Clock_new P prio, sim) = Inr (?c1, ?sim1)"
    by (rule register_all_at_zero [OF assms(1) assms(2) ne])
  have cnt: "count_list (staticHandlerMap ?c1) h = 1"
    using assms(4) by simp
  have "filter (\<lambda>e. snd e = ClockRef this) (timeVortex sim) = []"
    using assms(3) by (auto simp: clock_in_queue_def list_ex_iff filter_empty_conv)
  then have tv: "filter (\<lambda>e. snd e = ClockRef this) (timeVortex ?sim1) = [(P, ClockRef this)]"
    by (simp add: insertActivity_def)
  from run_persistent [where code = code and h = h and n = n and hist = "[]", OF assms(5) cnt tv]
  obtain c' sim' hist' where
    r: "run_clock this code n (?c1, ?sim1, []) = Some (c', sim', hist')"
    and h': "filter (\<lambda>e. inv_handler e = h) hist'
             = map (\<lambda>k. \<lparr>inv_handler = h, inv_cycle = currentCycle ?c1 + 1 + of_nat k,
                          inv_time = P + of_nat k * period ?c1, inv_done = False\<rparr>) [0..<n]"
    and a': "\<forall>e\<in>set hist'. \<exists>k<n. inv_cycle e = currentCycle ?c1 + 1 + of_nat k
                                      \<and> inv_time e = P + of_nat k * period ?c1"
    by auto
  have every: "\<forall>e\<in>set hist'. \<exists>k<n. inv_cycle e = of_nat (Suc k) \<and> inv_time e = of_nat (Suc k) * P"
  proof
    fix e assume "e \<in> set hist'"
    with a' obtain k where "k < n" "inv_cycle e = currentCycle ?c1 + 1 + of_nat k"
      "inv_time e = P + of_nat k * period ?c1" by blast
    then have "k < n \<and> inv_cycle e = of_nat (Suc k) \<and> inv_time e = of_nat (Suc k) * P"
      by (simp add: Clock_new_def algebra_simps)
    then show "\<exists>k<n. inv_cycle e = of_nat (Suc k) \<and> inv_time e = of_nat (Suc k) * P" by blast
  qed
  have words: "map (\<lambda>e. (inv_cycle e, inv_time e)) (filter (\<lambda>e. inv_handler e = h) hist')
             = map (\<lambda>k. (of_nat (Suc k), of_nat (Suc k) * P)) [0..<n]"
    unfolding h' by (simp add: Clock_new_def algebra_simps)
  have nats: "map (\<lambda>e. unat (inv_cycle e)) (filter (\<lambda>e. inv_handler e = h) hist') = [1..<Suc n]"
    if "n < 2 ^ 64"
  proof -
    have "map (\<lambda>e. unat (inv_cycle e)) (filter (\<lambda>e. inv_handler e = h) hist')
            = map (\<lambda>k. unat (of_nat (Suc k) :: 64 word)) [0..<n]"
      unfolding h' by (simp add: Clock_new_def algebra_simps)
    also have "\<dots> = map Suc [0..<n]"
    proof (rule map_cong [OF refl])
      fix k assume "k \<in> set [0..<n]"
      with that have "Suc k < 2 ^ LENGTH(64)" by simp
      then show "unat (of_nat (Suc k) :: 64 word) = Suc k"
        by (rule of_nat_inverse [OF refl])
    qed
    also have "\<dots> = [1..<Suc n]"
      by (simp add: map_Suc_upt)
    finally show ?thesis .
  qed
  show ?thesis
    using reg r words nats every by blast
qed

theorem C7_cycle_numbers_witness:
  "\<exists>c1 sim1 c' sim' hist'.
      register_all 0 [4, 5] (Clock_new 10 40, sim_zero) = Inr (c1, sim1)
    \<and> run_clock 0 keep_me 3 (c1, sim1, []) = Some (c', sim', hist')
    \<and> map (\<lambda>e. (inv_cycle e, inv_time e)) (filter (\<lambda>e. inv_handler e = 5) hist')
        = [(1, 10), (2, 20), (3, 30)]
    \<and> map (\<lambda>e. unat (inv_cycle e)) (filter (\<lambda>e. inv_handler e = 5) hist') = [1, 2, 3]"
proof -
  have a1: "(10 :: 64 word) \<noteq> 0" by simp
  have a2: "currentSimCycle sim_zero = 0" by (simp add: sim_zero_def)
  have a3: "\<not> clock_in_queue 0 sim_zero" by (simp add: clock_in_queue_def sim_zero_def)
  have a4: "count_list [4, 5] (5 :: nat) = 1" by simp
  have a5: "\<forall>hist cyc. \<not> keep_me hist 5 cyc" by (simp add: keep_me_def)
  have l: "[0..<3] = [0, 1, 2]" "[1..<Suc 3] = [1, 2, 3]" by (simp_all add: upt_rec)
  have b: "(3 :: nat) < 2 ^ 64" by simp
  from C7_cycle_numbers [where code = keep_me and h = 5 and prio = 40 and n = 3, OF a1 a2 a3 a4 a5]
  obtain c1 sim1 c' sim' hist' where
    "register_all 0 [4, 5] (Clock_new 10 40, sim_zero) = Inr (c1, sim1)"
    "run_clock 0 keep_me 3 (c1, sim1, []) = Some (c', sim', hist')"
    "map (\<lambda>e. (inv_cycle e, inv_time e)) (filter (\<lambda>e. inv_handler e = 5) hist')
        = map (\<lambda>k. (of_nat (Suc k), of_nat (Suc k) * 10)) [0..<3]"
    "map (\<lambda>e. unat (inv_cycle e)) (filter (\<lambda>e. inv_handler e = 5) hist') = [1..<Suc 3]"
    using b by blast
  then show ?thesis
    unfolding l by (intro exI [of _ c1] exI [of _ sim1] exI [of _ c'] exI [of _ sim'] exI [of _ hist']) simp
qed

end
